theory Spec2Isabelle
  imports Main "HOL-Library.Word" "HOL-Library.List_Lexorder" "HOL-Library.AList"
    "HOL-Library.Multiset"
begin

unbundle bit_operations_syntax

section \<open>Strings\<close>

text \<open>
  A Python \<open>str\<close> is a sequence of Unicode code points, and \<open>len\<close>, slicing and the
  regular expressions of the script count code points. A string is therefore a list of
  code points (natural numbers); \<open>u\<close> turns an ASCII literal into one. The order on
  strings that \<open>list.sort\<close> uses is the lexicographic order on code points, which is
  the order of lists from \<open>List_Lexorder\<close>.
\<close>

type_synonym ustr = "nat list"

definition u :: "string \<Rightarrow> ustr" where
  "u s = map of_char s"

text \<open>
  \<open>str.isspace\<close>, which is also the class \<open>\s\<close> of \<open>re\<close> on \<open>str\<close> patterns and the
  set that \<open>str.strip()\<close> removes: TAB..CR, FS..US, SPACE, NEL, NBSP, U+1680,
  U+2000..U+200A, U+2028, U+2029, U+202F, U+205F, U+3000.
\<close>

definition is_space :: "nat \<Rightarrow> bool" where
  "is_space c \<longleftrightarrow>
     (9 \<le> c \<and> c \<le> 13) \<or> (28 \<le> c \<and> c \<le> 32) \<or> c = 133 \<or> c = 160 \<or> c = 5760 \<or>
     (8192 \<le> c \<and> c \<le> 8202) \<or> c = 8232 \<or> c = 8233 \<or> c = 8239 \<or> c = 8287 \<or> c = 12288"

text \<open>\<open>s.lstrip\<close>, \<open>s.rstrip\<close> and \<open>s.strip\<close> for the set of characters \<open>P\<close>.\<close>

definition py_lstrip :: "('a \<Rightarrow> bool) \<Rightarrow> 'a list \<Rightarrow> 'a list" where
  "py_lstrip P s = dropWhile P s"

definition py_rstrip :: "('a \<Rightarrow> bool) \<Rightarrow> 'a list \<Rightarrow> 'a list" where
  "py_rstrip P s = rev (dropWhile P (rev s))"

definition py_strip :: "('a \<Rightarrow> bool) \<Rightarrow> 'a list \<Rightarrow> 'a list" where
  "py_strip P s = py_rstrip P (py_lstrip P s)"

text \<open>
  The slice \<open>s[:k]\<close>: the first \<open>k\<close> items, and for a negative \<open>k\<close> all but the last
  \<open>-k\<close>.
\<close>

definition py_prefix :: "int \<Rightarrow> 'a list \<Rightarrow> 'a list" where
  "py_prefix k s = (if 0 \<le> k then take (nat k) s else take (length s - nat (- k)) s)"

text \<open>
  \<open>re.sub(r"[P]+", r, s)\<close> for a character class \<open>P\<close> and a one-character
  replacement: every maximal run of characters of the class becomes \<open>r\<close>.
\<close>

function re_sub_runs :: "('a \<Rightarrow> bool) \<Rightarrow> 'a \<Rightarrow> 'a list \<Rightarrow> 'a list" where
  "re_sub_runs P r [] = []"
| "re_sub_runs P r (c # cs) =
     (if P c then r # re_sub_runs P r (dropWhile P cs) else c # re_sub_runs P r cs)"
  by pat_completeness auto
termination
  by (relation "measure (\<lambda>(P, r, s). length s)")
     (auto simp: le_imp_less_Suc length_dropWhile_le)

text \<open>
  \<open>re.sub(r"[P]{2,}", r, s)\<close>: every maximal run of two or more characters of the
  class becomes \<open>r\<close>; a single one stays.
\<close>

function re_sub_runs2 :: "('a \<Rightarrow> bool) \<Rightarrow> 'a \<Rightarrow> 'a list \<Rightarrow> 'a list" where
  "re_sub_runs2 P r [] = []"
| "re_sub_runs2 P r (c # cs) =
     (if P c \<and> cs \<noteq> [] \<and> P (hd cs) then r # re_sub_runs2 P r (dropWhile P cs)
      else c # re_sub_runs2 P r cs)"
  by pat_completeness auto
termination
  by (relation "measure (\<lambda>(P, r, s). length s)")
     (auto simp: le_imp_less_Suc length_dropWhile_le)

section \<open>Slugs\<close>

text \<open>
  \<open>_slug_invalid = re.compile(r"[^a-z0-9\-]+")\<close>: the class of the characters that
  are not a lower-case ASCII letter, a digit or a hyphen.
\<close>

definition slug_invalid :: "nat \<Rightarrow> bool" where
  "slug_invalid c \<longleftrightarrow> \<not> ((97 \<le> c \<and> c \<le> 122) \<or> (48 \<le> c \<and> c \<le> 57) \<or> c = 45)"

text \<open>
  \<open>slugify\<close>. \<open>str.lower\<close> follows the case tables of Unicode, which are not part of
  the script: it is the parameter \<open>lower\<close>, and nothing is assumed about it. The
  argument is a \<open>str\<close>, for which \<open>text or ""\<close> is \<open>text\<close>.
\<close>

definition slugify :: "(ustr \<Rightarrow> ustr) \<Rightarrow> ustr \<Rightarrow> ustr" where
  "slugify lower text =
     (let t1 = py_strip is_space (lower text);
          t2 = re_sub_runs is_space 45 t1;
          t3 = re_sub_runs slug_invalid 45 t2;
          t4 = py_strip (\<lambda>c. c = 45) (re_sub_runs2 (\<lambda>c. c = 45) 45 t3)
      in if t4 = [] then u ''post'' else t4)"

text \<open>\<open>str.lower\<close> on ASCII text, to run the functions on examples.\<close>

definition ascii_lower :: "ustr \<Rightarrow> ustr" where
  "ascii_lower s = map (\<lambda>c. if 65 \<le> c \<and> c \<le> 90 then c + 32 else c) s"

text \<open>
  The regular expression \<open>^[a-z0-9]+(-[a-z0-9]+)*$\<close> as a recogniser:
  \<open>slug_re\<close> expects the first character of a group, \<open>slug_re_rest\<close> reads on after
  at least one character of a group.
\<close>

definition slug_char :: "nat \<Rightarrow> bool" where
  "slug_char c \<longleftrightarrow> (97 \<le> c \<and> c \<le> 122) \<or> (48 \<le> c \<and> c \<le> 57)"

fun slug_re :: "ustr \<Rightarrow> bool" and slug_re_rest :: "ustr \<Rightarrow> bool" where
  "slug_re [] = False"
| "slug_re (c # cs) = (slug_char c \<and> slug_re_rest cs)"
| "slug_re_rest [] = True"
| "slug_re_rest (c # cs) = (if slug_char c then slug_re_rest cs else c = 45 \<and> slug_re cs)"

section \<open>Summaries\<close>

text \<open>
  \<open>re.sub(r"<[^>]+>", " ", html)\<close>. After a \<open><\<close>, the pattern needs one character or
  more other than \<open>>\<close> and then a \<open>>\<close>; \<open>after_tag\<close> gives the text behind that \<open>>\<close>
  when the rest of the pattern matches, and the scan goes on there.
\<close>

definition after_tag :: "ustr \<Rightarrow> ustr option" where
  "after_tag cs =
     (if takeWhile (\<lambda>c. c \<noteq> 62) cs = [] then None
      else case dropWhile (\<lambda>c. c \<noteq> 62) cs of [] \<Rightarrow> None | g # rest \<Rightarrow> Some rest)"

function strip_tags :: "ustr \<Rightarrow> ustr" where
  "strip_tags [] = []"
| "strip_tags (c # cs) =
     (if c = 60 \<and> after_tag cs \<noteq> None then 32 # strip_tags (the (after_tag cs))
      else c # strip_tags cs)"
  by pat_completeness auto
termination
proof (relation "measure length")
  fix c :: nat and cs :: ustr
  assume "c = 60 \<and> after_tag cs \<noteq> None"
  then obtain rest where r: "after_tag cs = Some rest" by auto
  then obtain g where "dropWhile (\<lambda>c. c \<noteq> 62) cs = g # rest"
    by (auto simp: after_tag_def split: if_splits list.splits)
  then have "length rest < length (dropWhile (\<lambda>c. c \<noteq> 62) cs)" by simp
  also have "\<dots> \<le> length cs" by (rule length_dropWhile_le)
  finally show "(the (after_tag cs), c # cs) \<in> measure length" using r by simp
qed auto

text \<open>
  \<open>summarize_text\<close>; the ellipsis is U+2026. The argument is a \<open>str\<close>, for which
  \<open>html or ""\<close> is \<open>html\<close>.
\<close>

definition plain_text :: "ustr \<Rightarrow> ustr" where
  "plain_text html = py_strip is_space (re_sub_runs is_space 32 (strip_tags html))"

definition summarize_text :: "ustr \<Rightarrow> int \<Rightarrow> ustr" where
  "summarize_text html max_len =
     (let txt = plain_text html
      in if int (length txt) > max_len
         then py_rstrip is_space (py_prefix (max_len - 1) txt) @ [8230]
         else txt)"

text \<open>A markup tag, as the pattern \<open><[^>]+>\<close> finds one somewhere in a text.\<close>

fun has_tag :: "ustr \<Rightarrow> bool" where
  "has_tag [] = False"
| "has_tag (c # cs) = ((c = 60 \<and> after_tag cs \<noteq> None) \<or> has_tag cs)"

text \<open>Two inputs for \<open>summarize_text\<close>: 281 characters of plain text, and a short document.\<close>

definition long_text :: ustr where
  "long_text = replicate 278 97 @ [32, 98, 98]"

definition short_html :: ustr where
  "short_html = u ''<p>Hello   <b>big</b> world</p>''"

section \<open>Hashing\<close>

type_synonym byte = "8 word"
type_synonym w32 = "32 word"

definition utf8_char :: "nat \<Rightarrow> byte list" where
  "utf8_char c =
     (if c < 128 then [of_nat c]
      else if c < 2048 then [of_nat (192 + c div 64), of_nat (128 + c mod 64)]
      else if c < 65536 then
        [of_nat (224 + c div 4096), of_nat (128 + c div 64 mod 64), of_nat (128 + c mod 64)]
      else
        [of_nat (240 + c div 262144), of_nat (128 + c div 4096 mod 64),
         of_nat (128 + c div 64 mod 64), of_nat (128 + c mod 64)])"

definition utf8_encode :: "ustr \<Rightarrow> byte list" where
  "utf8_encode s = concat (map utf8_char s)"

definition rotl :: "nat \<Rightarrow> w32 \<Rightarrow> w32" where
  "rotl n x = push_bit n x OR drop_bit (32 - n) x"

definition be_word :: "byte list \<Rightarrow> w32" where
  "be_word bs = foldl (\<lambda>acc b. push_bit 8 acc OR ucast b) 0 bs"

fun chunks :: "nat \<Rightarrow> 'a list \<Rightarrow> 'a list list" where
  "chunks n [] = []"
| "chunks n (x # xs) =
     (if n = 0 then [] else take n (x # xs) # chunks n (drop n (x # xs)))"

definition be_bytes64 :: "64 word \<Rightarrow> byte list" where
  "be_bytes64 v = map (\<lambda>i. ucast (drop_bit (8 * (7 - i)) v)) [0..<8]"

definition sha1_pad :: "byte list \<Rightarrow> byte list" where
  "sha1_pad m =
     m @ [0x80] @ replicate ((119 - length m mod 64) mod 64) 0 @
     be_bytes64 (of_nat (8 * length m))"

fun sha1_extend :: "nat \<Rightarrow> w32 list \<Rightarrow> w32 list" where
  "sha1_extend 0 ws = ws"
| "sha1_extend (Suc n) ws = sha1_extend n (rotl 1 (ws ! 2 XOR ws ! 7 XOR ws ! 13 XOR ws ! 15) # ws)"

definition schedule :: "byte list \<Rightarrow> w32 list" where
  "schedule blk = rev (sha1_extend 64 (rev (map be_word (chunks 4 blk))))"

type_synonym sha1_state = "w32 \<times> w32 \<times> w32 \<times> w32 \<times> w32"

fun sha1_round :: "(w32 \<Rightarrow> w32 \<Rightarrow> w32 \<Rightarrow> w32) \<Rightarrow> w32 \<Rightarrow> sha1_state \<Rightarrow> w32 \<Rightarrow> sha1_state" where
  "sha1_round f k (a, b, c, d, e) w = (rotl 5 a + f b c d + e + k + w, a, rotl 30 b, c, d)"

definition ch :: "w32 \<Rightarrow> w32 \<Rightarrow> w32 \<Rightarrow> w32" where "ch b c d = (b AND c) OR (NOT b AND d)"
definition parity :: "w32 \<Rightarrow> w32 \<Rightarrow> w32 \<Rightarrow> w32" where "parity b c d = b XOR c XOR d"
definition maj :: "w32 \<Rightarrow> w32 \<Rightarrow> w32 \<Rightarrow> w32" where "maj b c d = (b AND c) OR (b AND d) OR (c AND d)"

fun add5 :: "sha1_state \<Rightarrow> sha1_state \<Rightarrow> sha1_state" where
  "add5 (h0, h1, h2, h3, h4) (a, b, c, d, e) = (h0 + a, h1 + b, h2 + c, h3 + d, h4 + e)"

definition sha1_block :: "sha1_state \<Rightarrow> byte list \<Rightarrow> sha1_state" where
  "sha1_block h blk =
     (let ws = schedule blk;
          s1 = foldl (sha1_round ch 0x5A827999) h (take 20 ws);
          s2 = foldl (sha1_round parity 0x6ED9EBA1) s1 (take 20 (drop 20 ws));
          s3 = foldl (sha1_round maj 0x8F1BBCDC) s2 (take 20 (drop 40 ws));
          s4 = foldl (sha1_round parity 0xCA62C1D6) s3 (drop 60 ws)
      in add5 h s4)"

definition hex_digit :: "nat \<Rightarrow> nat" where
  "hex_digit n = (if n < 10 then 48 + n else 87 + n)"

definition hex_word :: "w32 \<Rightarrow> ustr" where
  "hex_word w = map (\<lambda>i. hex_digit (unat (drop_bit (4 * (7 - i)) w AND 15))) [0..<8]"

fun hex5 :: "sha1_state \<Rightarrow> ustr" where
  "hex5 (a, b, c, d, e) = concat (map hex_word [a, b, c, d, e])"

definition sha1_hex :: "byte list \<Rightarrow> ustr" where
  "sha1_hex m =
     hex5 (foldl sha1_block (0x67452301, 0xEFCDAB89, 0x98BADCFE, 0x10325476, 0xC3D2E1F0)
             (chunks 64 (sha1_pad m)))"

section \<open>Identity of an entry\<close>

text \<open>
  A feed entry as \<open>feedparser\<close> hands it over. A field is \<open>None\<close> when the entry has
  no such attribute, which is the case \<open>getattr(entry, name, default)\<close> answers with
  its default. A content part is its \<open>value\<close>, \<open>None\<close> when the part has none; the time
  tuples are those of \<open>time.struct_time\<close>.
\<close>

type_synonym time_tuple = "int list"

record entry =
  entry_id :: "ustr option"
  entry_link :: "ustr option"
  entry_title :: "ustr option"
  entry_summary :: "ustr option"
  entry_content :: "ustr option list option"
  published_parsed :: "time_tuple option"
  updated_parsed :: "time_tuple option"

text \<open>The truth value of an optional string: \<open>None\<close> and \<open>""\<close> are false.\<close>

fun present :: "ustr option \<Rightarrow> bool" where
  "present None = False"
| "present (Some s) = (s \<noteq> [])"

text \<open>\<open>getattr(entry, name, "")\<close> for a string field.\<close>

fun or_empty :: "ustr option \<Rightarrow> ustr" where
  "or_empty None = []"
| "or_empty (Some s) = s"

text \<open>
  \<open>base\<close> of \<open>post_identity\<close>: title, a vertical bar and summary, cut to 512
  characters.
\<close>

definition identity_base :: "entry \<Rightarrow> ustr" where
  "identity_base e = take 512 (or_empty (entry_title e) @ u ''|'' @ or_empty (entry_summary e))"

definition post_identity :: "entry \<Rightarrow> ustr" where
  "post_identity e =
     (if present (entry_id e) then the (entry_id e)
      else if present (entry_link e) then the (entry_link e)
      else sha1_hex (utf8_encode (identity_base e)))"

section \<open>Documents\<close>

text \<open>
  The snippet \<open>assets/ads.html\<close>: absent, present but unreadable (\<open>read_text\<close> raises),
  or its text. \<open>render_html\<close> takes the empty string in the first two cases.
\<close>

datatype ads_file = NoAds | AdsUnreadable | Ads ustr

fun read_ads :: "ads_file \<Rightarrow> ustr" where
  "read_ads NoAds = []"
| "read_ads AdsUnreadable = []"
| "read_ads (Ads s) = s"

text \<open>The \<open>Source\<close> paragraph of the template: empty unless the link is a non-empty string.\<close>

definition source_part :: "ustr option \<Rightarrow> ustr" where
  \<open>source_part source_link =
     (if present source_link
      then u ''<p><a href="'' @ the source_link @ u ''" rel="noopener noreferrer">Source</a></p>''
      else [])\<close>

text \<open>\<open>render_html\<close>: the template, line by line; 10 is the line feed.\<close>

definition render_html :: "ads_file \<Rightarrow> ustr \<Rightarrow> ustr \<Rightarrow> ustr \<Rightarrow> ustr option \<Rightarrow> ustr" where
  \<open>render_html ads title date_iso content_html source_link =
     u ''<!doctype html>'' @ [10] @
     u ''<html lang="en">'' @ [10] @
     u ''<head>'' @ [10] @
     u ''  <meta charset="utf-8">'' @ [10] @
     u ''  <meta name="viewport" content="width=device-width,initial-scale=1">'' @ [10] @
     u ''  <title>'' @ title @ u ''</title>'' @ [10] @
     u ''  <link rel="stylesheet" href="/styles.css">'' @ [10] @
     u ''</head>'' @ [10] @
     u ''<body>'' @ [10] @
     u ''  <header>'' @ [10] @
     u ''    <h1>'' @ title @ u ''</h1>'' @ [10] @
     u ''    <p><small>Published: '' @ date_iso @ u ''</small></p>'' @ [10] @
     u ''  </header>'' @ [10] @
     [10] @
     u ''  <main>'' @ [10] @
     u ''    '' @ content_html @ [10] @
     u ''    '' @ source_part source_link @ [10] @
     u ''  </main>'' @ [10] @
     [10] @
     u ''  <aside>'' @ [10] @
     u ''    '' @ read_ads ads @ [10] @
     u ''  </aside>'' @ [10] @
     [10] @
     u ''  <script src="/site.js"></script>'' @ [10] @
     u ''</body>'' @ [10] @
     u ''</html>'' @ [10]\<close>

text \<open>
  The tag structure of a document, as a scanner with three states: in text, inside a
  tag, inside a quoted attribute value of a tag. A \<open><\<close> inside a tag breaks the
  structure (the result is \<open>None\<close>); a document is well formed when the scan ends in
  text, so that no tag and no attribute value is left open.
\<close>

datatype scan_state = InText | InTag | InValue

fun tag_scan :: "scan_state \<Rightarrow> ustr \<Rightarrow> scan_state option" where
  "tag_scan s [] = Some s"
| "tag_scan InText (c # cs) = (if c = 60 then tag_scan InTag cs else tag_scan InText cs)"
| "tag_scan InTag (c # cs) =
     (if c = 60 then None
      else if c = 62 then tag_scan InText cs
      else if c = 34 then tag_scan InValue cs
      else tag_scan InTag cs)"
| "tag_scan InValue (c # cs) = (if c = 34 then tag_scan InTag cs else tag_scan InValue cs)"

definition well_formed :: "ustr \<Rightarrow> bool" where
  "well_formed doc \<longleftrightarrow> tag_scan InText doc = Some InText"

section \<open>The manifest\<close>

text \<open>
  What \<open>json.load\<close> returns: \<open>None\<close>, a \<open>bool\<close>, an \<open>int\<close>, a \<open>float\<close> (a finite binary
  fraction, an infinity or a NaN), a \<open>str\<close>, a \<open>list\<close>, or a \<open>dict\<close> as the list of its
  items in their order, each key once.
\<close>

datatype pyfloat = Finite int int | Infinity bool | NaN

datatype json =
    JNull
  | JBool bool
  | JInt int
  | JFloat pyfloat
  | JStr ustr
  | JList "json list"
  | JDict "(ustr \<times> json) list"

text \<open>The truth value of a JSON value, and whether it can be a member of a \<open>set\<close>.\<close>

fun truthy :: "json \<Rightarrow> bool" where
  "truthy JNull = False"
| "truthy (JBool b) = b"
| "truthy (JInt i) = (i \<noteq> 0)"
| "truthy (JFloat (Finite m e)) = (m \<noteq> 0)"
| "truthy (JFloat (Infinity s)) = True"
| "truthy (JFloat NaN) = True"
| "truthy (JStr s) = (s \<noteq> [])"
| "truthy (JList xs) = (xs \<noteq> [])"
| "truthy (JDict d) = (d \<noteq> [])"

fun hashable :: "json \<Rightarrow> bool" where
  "hashable (JList xs) = False"
| "hashable (JDict d) = False"
| "hashable v = True"

text \<open>\<open>d.get(k)\<close>, whose default is \<open>None\<close>, and \<open>d.get(k, default)\<close>.\<close>

definition dict_get :: "(ustr \<times> json) list \<Rightarrow> ustr \<Rightarrow> json \<Rightarrow> json" where
  "dict_get d k dflt = (case map_of d k of None \<Rightarrow> dflt | Some v \<Rightarrow> v)"

text \<open>
  The exceptions of the model. All are subclasses of \<open>Exception\<close>, so that
  \<open>except Exception\<close> catches each of them.
\<close>

datatype error = AttributeError | KeyError | TypeError | OSError | ValueError

text \<open>
  The manifest file: absent; inaccessible, where \<open>MANIFEST_PATH.exists()\<close> itself
  raises (\<open>Path.exists\<close> takes only four errors of \<open>stat\<close> as absence and raises the
  others again: a \<open>posts\<close> directory that may not be searched gives \<open>PermissionError\<close>,
  an \<open>OSError\<close>); present, with \<open>open\<close> or \<open>json.load\<close> raising (unreadable, not UTF-8,
  not JSON); or present and parsed to a value. \<open>Stored v\<close> is also what \<open>json.dump\<close> of
  \<open>v\<close> leaves on disk.
\<close>

datatype manifest_file = Absent | Inaccessible | Unreadable error | Stored json

fun file_exists :: "manifest_file \<Rightarrow> error + bool" where
  "file_exists Absent = Inr False"
| "file_exists Inaccessible = Inl OSError"
| "file_exists (Unreadable e) = Inr True"
| "file_exists (Stored v) = Inr True"

text \<open>\<open>open\<close> and \<open>json.load\<close> on the manifest file.\<close>

fun read_json :: "manifest_file \<Rightarrow> error + json" where
  "read_json Absent = Inl OSError"
| "read_json Inaccessible = Inl OSError"
| "read_json (Unreadable e) = Inl e"
| "read_json (Stored v) = Inr v"

definition empty_manifest :: json where
  "empty_manifest = JDict [(u ''posts'', JList [])]"

text \<open>The test of line 58, negated: a \<open>dict\<close> with a key \<open>posts\<close> whose value is a \<open>list\<close>.\<close>

fun well_shaped :: "json \<Rightarrow> bool" where
  "well_shaped (JDict d) =
     (case map_of d (u ''posts'') of Some (JList ps) \<Rightarrow> True | _ \<Rightarrow> False)"
| "well_shaped v = False"

text \<open>
  \<open>load_manifest\<close>. The test of line 53 stands before the \<open>try\<close>, so what it raises
  leaves the function. The body of \<open>try\<close> is \<open>load_try\<close>; the handler turns whatever
  that raises into the empty manifest.
\<close>

definition load_try :: "manifest_file \<Rightarrow> error + json" where
  "load_try f =
     (case read_json f of
        Inl e \<Rightarrow> Inl e
      | Inr data \<Rightarrow> if \<not> well_shaped data then Inr empty_manifest else Inr data)"

definition load_manifest :: "manifest_file \<Rightarrow> error + json" where
  "load_manifest f =
     (case file_exists f of
        Inl e \<Rightarrow> Inl e
      | Inr ex \<Rightarrow>
          if \<not> ex then Inr empty_manifest
          else case load_try f of Inl e \<Rightarrow> Inr empty_manifest | Inr data \<Rightarrow> Inr data)"

text \<open>
  The key of the sort in \<open>save_manifest\<close>, \<open>x.get("date_iso", "")\<close>; a post that is not
  a \<open>dict\<close> has no \<open>get\<close>.
\<close>

fun date_key :: "json \<Rightarrow> error + json" where
  "date_key (JDict p) = Inr (dict_get p (u ''date_iso'') (JStr []))"
| "date_key v = Inl AttributeError"

fun is_str :: "json \<Rightarrow> bool" where
  "is_str (JStr s) = True"
| "is_str v = False"

text \<open>The key as a string; the empty string for a key that is none.\<close>

fun date_str :: "json \<Rightarrow> ustr" where
  "date_str (JDict p) = (case dict_get p (u ''date_iso'') (JStr []) of JStr s \<Rightarrow> s | _ \<Rightarrow> [])"
| "date_str v = []"

text \<open>The first error of a list of results, or all the values.\<close>

fun collect :: "('e + 'a) list \<Rightarrow> 'e + 'a list" where
  "collect [] = Inr []"
| "collect (Inl e # rs) = Inl e"
| "collect (Inr v # rs) = (case collect rs of Inl e \<Rightarrow> Inl e | Inr vs \<Rightarrow> Inr (v # vs))"

text \<open>
  \<open>posts.sort(key=..., reverse=True)\<close>. The keys are computed first, for every post.
  A list of one post or none is then left as it is, with no comparison. Keys that are
  all strings are compared as Python compares strings, and the sort is stable: with
  \<open>reverse=True\<close> the list is reversed, sorted upwards and reversed again, which keeps
  posts of equal keys in their order. The pipeline itself writes string keys only
  (line 211). Where two or more posts are to be compared and a key is not a string,
  what \<open>sort\<close> does rests on Python's comparison of values of any type (it raises
  \<open>TypeError\<close> for a string and a number, orders numbers, finds a NaN less than
  nothing): that is the parameter \<open>other\<close>, the outcome of \<open>sort\<close> on such a list, of
  which nothing is assumed.
\<close>

definition sort_posts :: "(json list \<Rightarrow> error + json list) \<Rightarrow> json list \<Rightarrow> error + json list" where
  "sort_posts other posts =
     (case collect (map date_key posts) of
        Inl e \<Rightarrow> Inl e
      | Inr keys \<Rightarrow>
          if length posts \<le> 1 then Inr posts
          else if \<forall>k \<in> set keys. is_str k then Inr (rev (sort_key date_str (rev posts)))
          else other posts)"

section \<open>The pipeline\<close>

text \<open>
  What a run reads from outside the script: the environment variable \<open>RSS_FEEDS\<close>
  (\<open>None\<close> when unset) and the value of \<open>ITEMS_PER_FEED\<close> as an \<open>int\<close>; the feed
  collaborator \<open>feedparser.parse\<close>, a function of the URL (the snapshot of the feeds
  at this run); the conversion \<open>datetime.fromtimestamp(time.mktime(dt), tz=utc)\<close> of a
  time tuple, which may raise; the clock, as the value of \<open>datetime.now\<close> at its
  \<open>n\<close>-th reading; \<open>strftime("%Y-%m-%d")\<close> and \<open>isoformat()\<close> of a \<open>datetime\<close>;
  \<open>str.lower\<close>; and \<open>list.sort\<close> on posts whose keys are not all strings.
\<close>

datatype datetime = Datetime int

record parsed =
  bozo :: bool
  entries :: "entry list"

record env =
  rss_feeds :: "ustr option"
  items_per_feed :: int
  fetch :: "ustr \<Rightarrow> parsed"
  to_utc :: "time_tuple \<Rightarrow> error + datetime"
  now :: "nat \<Rightarrow> datetime"
  strftime_ymd :: "datetime \<Rightarrow> ustr"
  isoformat :: "datetime \<Rightarrow> ustr"
  str_lower :: "ustr \<Rightarrow> ustr"
  sort_other :: "json list \<Rightarrow> error + json list"

text \<open>
  What a run does to the outside, in order: the directory it ensures, the lines it
  prints, the documents it writes and the manifest it saves.
\<close>

datatype event =
    EnsureDirs
  | PrintNoFeeds
  | PrintFetching ustr
  | PrintWarning
  | PrintNoEntries
  | WritePost ustr
  | PrintWrote ustr
  | SaveManifest json
  | PrintDone nat
  | PrintTotal nat

text \<open>
  The files and the clock, and which effects on storage fail: creating the directory
  (\<open>mkdir\<close>), writing a document (\<open>ADS_SNIPPET.exists()\<close>, looked at while the document
  is rendered, or \<open>write_text\<close>) and writing the manifest (\<open>open\<close>, \<open>json.dump\<close>) may each
  raise \<open>OSError\<close>, which nothing in \<open>main\<close> catches. Printing is taken to work.
\<close>

record world =
  manifest_file :: manifest_file
  ads :: ads_file
  post_files :: "(ustr \<times> ustr) list"
  trace :: "event list"
  clock :: nat
  failing :: "event \<Rightarrow> bool"

definition emit :: "event \<Rightarrow> world \<Rightarrow> world" where
  "emit ev w = w\<lparr>trace := trace w @ [ev]\<rparr>"

definition perform :: "event \<Rightarrow> world \<Rightarrow> error + world" where
  "perform ev w = (if failing w ev then Inl OSError else Inr (emit ev w))"

text \<open>A \<open>for\<close> loop over a list whose body may raise, which ends the loop.\<close>

fun for_loop :: "('s \<Rightarrow> 'a \<Rightarrow> error + 's) \<Rightarrow> 's \<Rightarrow> 'a list \<Rightarrow> error + 's" where
  "for_loop body st [] = Inr st"
| "for_loop body st (x # xs) =
     (case body st x of Inl e \<Rightarrow> Inl e | Inr st' \<Rightarrow> for_loop body st' xs)"

text \<open>The manifests that the trace says were saved.\<close>

fun saves :: "event list \<Rightarrow> json list" where
  "saves [] = []"
| "saves (SaveManifest m # evs) = m # saves evs"
| "saves (ev # evs) = saves evs"

text \<open>\<open>sep.join(parts)\<close> and \<open>s.split(sep)\<close> for a one-character separator.\<close>

fun py_join :: "'a list \<Rightarrow> 'a list list \<Rightarrow> 'a list" where
  "py_join sep [] = []"
| "py_join sep [p] = p"
| "py_join sep (p # q # ps) = p @ sep @ py_join sep (q # ps)"

fun py_split :: "'a \<Rightarrow> 'a list \<Rightarrow> 'a list list" where
  "py_split sep [] = [[]]"
| "py_split sep (c # cs) =
     (if c = sep then [] # py_split sep cs
      else case py_split sep cs of [] \<Rightarrow> [[c]] | p # ps \<Rightarrow> (c # p) # ps)"

text \<open>
  The feeds of the run: \<open>ENV_FEEDS\<close> is the stripped variable, the empty string when
  it is unset; the fallback list is used when that is empty.
\<close>

definition FALLBACK_FEEDS :: "ustr list" where
  "FALLBACK_FEEDS =
     [u ''https://hnrss.org/frontpage'',
      u ''https://rss.nytimes.com/services/xml/rss/nyt/Technology.xml'']"

definition ENV_FEEDS :: "env \<Rightarrow> ustr" where
  "ENV_FEEDS ev = py_strip is_space (or_empty (rss_feeds ev))"

definition resolve_feeds :: "env \<Rightarrow> ustr list" where
  "resolve_feeds ev =
     filter (\<lambda>s. s \<noteq> [])
       (map (py_strip is_space)
         (if ENV_FEEDS ev \<noteq> [] then py_split 44 (ENV_FEEDS ev) else FALLBACK_FEEDS))"

text \<open>
  \<open>pick_datetime\<close>: the published time, else the updated time, else the clock, which
  is then read once. A time that is none or an empty tuple is false; a conversion
  that raises is passed over.
\<close>

definition convert :: "env \<Rightarrow> time_tuple option \<Rightarrow> datetime option" where
  "convert ev t =
     (case t of
        None \<Rightarrow> None
      | Some tt \<Rightarrow>
          if tt = [] then None
          else (case to_utc ev tt of Inl e \<Rightarrow> None | Inr dt \<Rightarrow> Some dt))"

definition pick_datetime :: "env \<Rightarrow> entry \<Rightarrow> world \<Rightarrow> datetime \<times> world" where
  "pick_datetime ev e w =
     (case convert ev (published_parsed e) of
        Some dt \<Rightarrow> (dt, w)
      | None \<Rightarrow>
          (case convert ev (updated_parsed e) of
             Some dt \<Rightarrow> (dt, w)
           | None \<Rightarrow> (now ev (clock w), w\<lparr>clock := Suc (clock w)\<rparr>)))"

text \<open>The title of lines 187 and the content of lines 192 to 200.\<close>

definition title_of :: "entry \<Rightarrow> ustr" where
  "title_of e =
     (let t = py_strip is_space (case entry_title e of None \<Rightarrow> u ''Untitled'' | Some t \<Rightarrow> t)
      in if t = [] then u ''Untitled'' else t)"

definition content_of :: "entry \<Rightarrow> ustr" where
  "content_of e =
     (let content_html =
        (case entry_content e of
           None \<Rightarrow> []
         | Some parts \<Rightarrow> py_join (u '' '') (map the (filter present parts)))
      in if content_html = [] then or_empty (entry_summary e) else content_html)"

text \<open>
  \<open>write_post_file\<close>: the name of the file, and the world with the document written
  (\<open>write_text\<close> replaces a file of the same name), unless writing it fails.
\<close>

definition write_post_file ::
  "env \<Rightarrow> datetime \<Rightarrow> ustr \<Rightarrow> ustr \<Rightarrow> ustr option \<Rightarrow> world \<Rightarrow> error + ustr \<times> world" where
  "write_post_file ev date_dt title content_html source_link w =
     (let date_str = strftime_ymd ev date_dt;
          slug = slugify (str_lower ev) title;
          filename = date_str @ u ''-'' @ slug @ u ''.html'';
          html = render_html (ads w) title (isoformat ev date_dt) content_html source_link
      in case perform (WritePost filename) w of
           Inl e \<Rightarrow> Inl e
         | Inr w1 \<Rightarrow>
             Inr (filename, w1\<lparr>post_files := AList.update filename html (post_files w1)\<rparr>))"

text \<open>The record that lines 206 to 214 append for an entry.\<close>

definition post_record :: "ustr \<Rightarrow> ustr \<Rightarrow> ustr \<Rightarrow> ustr \<Rightarrow> ustr option \<Rightarrow> ustr \<Rightarrow> json" where
  "post_record pid title filename date_iso link content_html =
     JDict
       [(u ''id'', JStr pid),
        (u ''title'', JStr title),
        (u ''slug'', JStr filename),
        (u ''path'', JStr (u ''posts/'' @ filename)),
        (u ''date_iso'', JStr date_iso),
        (u ''source'', JStr (if present link then the link else [])),
        (u ''summary'', JStr (summarize_text content_html 280))]"

text \<open>
  The variables of the loop of \<open>main\<close>: the list \<open>manifest["posts"]\<close>, the set
  \<open>known_ids\<close>, the count of added posts, and the world.
\<close>

record loop =
  posts :: "json list"
  known_ids :: "json set"
  added_count :: nat
  wld :: world

text \<open>The body of the inner loop, lines 182 to 216, for one entry.\<close>

definition process_entry :: "env \<Rightarrow> loop \<Rightarrow> entry \<Rightarrow> error + loop" where
  "process_entry ev st e =
     (let pid = post_identity e in
      if JStr pid \<in> known_ids st then Inr st
      else
        let title = title_of e;
            link = entry_link e;
            (date_dt, w1) = pick_datetime ev e (wld st);
            content_html = content_of e
        in case write_post_file ev date_dt title content_html link w1 of
             Inl err \<Rightarrow> Inl err
           | Inr (filename, w2) \<Rightarrow>
               Inr \<lparr>posts = posts st @
                      [post_record pid title filename (isoformat ev date_dt) link content_html],
                    known_ids = insert (JStr pid) (known_ids st),
                    added_count = added_count st + 1,
                    wld = emit (PrintWrote filename) w2\<rparr>)"

text \<open>The body of the outer loop, lines 172 to 216, for one feed.\<close>

definition process_feed :: "env \<Rightarrow> loop \<Rightarrow> ustr \<Rightarrow> error + loop" where
  "process_feed ev st feed_url =
     (let st1 = st\<lparr>wld := emit (PrintFetching feed_url) (wld st)\<rparr>;
          p = fetch ev feed_url;
          st2 = (if bozo p then st1\<lparr>wld := emit PrintWarning (wld st1)\<rparr> else st1)
      in if entries p = [] then Inr (st2\<lparr>wld := emit PrintNoEntries (wld st2)\<rparr>)
         else for_loop (process_entry ev) st2 (py_prefix (items_per_feed ev) (entries p)))"

text \<open>
  The set of line 162. For each post, \<open>p.get("id")\<close> needs a \<open>dict\<close>, and a true id
  is added to the set, which needs it hashable.
\<close>

fun known_ids_of :: "json list \<Rightarrow> error + json set" where
  "known_ids_of [] = Inr {}"
| "known_ids_of (JDict p # ps) =
     (let v = dict_get p (u ''id'') JNull in
      if truthy v \<and> \<not> hashable v then Inl TypeError
      else case known_ids_of ps of
             Inl e \<Rightarrow> Inl e
           | Inr ks \<Rightarrow> Inr (if truthy v then insert v ks else ks))"
| "known_ids_of (v # ps) = Inl AttributeError"

text \<open>
  \<open>save_manifest\<close> for a manifest that is a \<open>dict\<close> with the items \<open>d\<close>: the list under
  \<open>posts\<close> is sorted in place, and the whole \<open>dict\<close> is written. Its first argument is
  the parameter of \<open>sort_posts\<close>.
\<close>

definition save_manifest ::
  "(json list \<Rightarrow> error + json list) \<Rightarrow> (ustr \<times> json) list \<Rightarrow> world \<Rightarrow> error + world" where
  "save_manifest other d w =
     (case map_of d (u ''posts'') of
        None \<Rightarrow> Inl KeyError
      | Some (JList ps) \<Rightarrow>
          (case sort_posts other ps of
             Inl e \<Rightarrow> Inl e
           | Inr sorted_ps \<Rightarrow>
               (let m = JDict (AList.update (u ''posts'') (JList sorted_ps) d)
                in case perform (SaveManifest m) w of
                     Inl e \<Rightarrow> Inl e
                   | Inr w1 \<Rightarrow> Inr (w1\<lparr>manifest_file := Stored m\<rparr>)))
      | Some v \<Rightarrow> Inl AttributeError)"

text \<open>
  \<open>main\<close>. The manifest that \<open>load_manifest\<close> returns is a \<open>dict\<close> with a list under
  \<open>posts\<close>; the other cases are there for the function to be total.
\<close>

definition main :: "env \<Rightarrow> world \<Rightarrow> error + world" where
  "main ev w =
     (case perform EnsureDirs w of
        Inl e \<Rightarrow> Inl e
      | Inr w0 \<Rightarrow>
          (case load_manifest (manifest_file w0) of
             Inl e \<Rightarrow> Inl e
           | Inr (JDict d) \<Rightarrow>
               (case map_of d (u ''posts'') of
                  Some (JList ps) \<Rightarrow>
                    (case known_ids_of ps of
                       Inl e \<Rightarrow> Inl e
                     | Inr known \<Rightarrow>
                         let feeds = resolve_feeds ev in
                         if feeds = [] then Inr (emit PrintNoFeeds w0)
                         else
                           (case for_loop (process_feed ev)
                                   \<lparr>posts = ps, known_ids = known, added_count = 0, wld = w0\<rparr>
                                   feeds of
                              Inl e \<Rightarrow> Inl e
                            | Inr st \<Rightarrow>
                                (case save_manifest (sort_other ev)
                                        (AList.update (u ''posts'') (JList (posts st)) d)
                                        (wld st) of
                                   Inl e \<Rightarrow> Inl e
                                 | Inr w1 \<Rightarrow>
                                     Inr (emit (PrintTotal (length (posts st)))
                                           (emit (PrintDone (added_count st)) w1)))))
                | _ \<Rightarrow> Inl KeyError)
           | Inr v \<Rightarrow> Inl AttributeError))"

section \<open>Notions for the properties of a run\<close>

text \<open>The posts of a manifest, and the id of a post as line 162 reads it, \<open>p.get("id")\<close>.\<close>

fun posts_of :: "json \<Rightarrow> json list" where
  "posts_of (JDict d) = (case map_of d (u ''posts'') of Some (JList ps) \<Rightarrow> ps | _ \<Rightarrow> [])"
| "posts_of v = []"

fun post_id :: "json \<Rightarrow> json" where
  "post_id (JDict p) = dict_get p (u ''id'') JNull"
| "post_id v = JNull"

text \<open>No two posts share an id; a post with no id (or a null one) shares none.\<close>

definition unique_ids :: "json list \<Rightarrow> bool" where
  "unique_ids ps \<longleftrightarrow> distinct (filter (\<lambda>v. v \<noteq> JNull) (map post_id ps))"

text \<open>
  Posts as the pipeline writes them, as far as a run depends on it: a \<open>dict\<close> whose
  \<open>date_iso\<close>, if any, is a string (\<open>dated\<close>), and whose id is false or hashable.
\<close>

fun is_dict :: "json \<Rightarrow> bool" where
  "is_dict (JDict d) = True"
| "is_dict v = False"

definition dated :: "json \<Rightarrow> bool" where
  "dated p \<longleftrightarrow> date_key p = Inr (JStr (date_str p))"

definition usable_post :: "json \<Rightarrow> bool" where
  "usable_post p \<longleftrightarrow>
     is_dict p \<and> (truthy (post_id p) \<longrightarrow> hashable (post_id p)) \<and> date_key p = Inr (JStr (date_str p))"

text \<open>An entry with neither id nor link (its link is empty), for the hashed identity.\<close>

definition hashed_entry :: entry where
  "hashed_entry =
     \<lparr>entry_id = None, entry_link = Some [], entry_title = Some (u ''a''),
      entry_summary = Some (u ''b''), entry_content = None,
      published_parsed = None, updated_parsed = None\<rparr>"

text \<open>
  The lists that \<open>sort\<close> orders by string keys or leaves alone: every post is a \<open>dict\<close>,
  and where there are two or more, every key is a string.
\<close>

definition sortable :: "json list \<Rightarrow> bool" where
  "sortable ps \<longleftrightarrow>
     (\<forall>p\<in>set ps. is_dict p) \<and>
     (length ps \<le> 1 \<or> (\<forall>p\<in>set ps. date_key p = Inr (JStr (date_str p))))"

text \<open>
  What the loop of \<open>main\<close> may do to its variables from one point to a later one: it
  appends posts, each with a non-empty string as id that is new and now known, counts
  them, and prints and writes documents, but does not touch the manifest file.
\<close>

definition grows :: "loop \<Rightarrow> loop \<Rightarrow> bool" where
  "grows st st' \<longleftrightarrow>
     (\<exists>new evs.
        posts st' = posts st @ new \<and>
        (\<forall>p\<in>set new. usable_post p \<and> (\<exists>s. s \<noteq> [] \<and> post_id p = JStr s)) \<and>
        distinct (map post_id new) \<and>
        post_id ` set new \<inter> known_ids st = {} \<and>
        known_ids st' = known_ids st \<union> post_id ` set new \<and>
        added_count st' = added_count st + length new \<and>
        manifest_file (wld st') = manifest_file (wld st) \<and>
        ads (wld st') = ads (wld st) \<and>
        trace (wld st') = trace (wld st) @ evs \<and> saves evs = [])"

text \<open>The manifest \<open>d\<close> with the list \<open>ps\<close> under \<open>posts\<close>, and the variables before the loop.\<close>

definition saved :: "(ustr \<times> json) list \<Rightarrow> json list \<Rightarrow> json" where
  "saved d ps = JDict (AList.update (u ''posts'') (JList ps) d)"

definition start :: "world \<Rightarrow> json list \<Rightarrow> json set \<Rightarrow> loop" where
  "start w ps K = \<lparr>posts = ps, known_ids = K, added_count = 0, wld = emit EnsureDirs w\<rparr>"

text \<open>
  The entries that a run looks at: of each feed, the first \<open>ITEMS_PER_FEED\<close> entries
  of what the feed gives at this run.
\<close>

definition snapshot :: "env \<Rightarrow> ustr list \<Rightarrow> entry list" where
  "snapshot ev feeds =
     concat (map (\<lambda>url. py_prefix (items_per_feed ev) (entries (fetch ev url))) feeds)"

text \<open>The events that change a file: a document written, the manifest saved.\<close>

fun writes :: "event list \<Rightarrow> event list" where
  "writes [] = []"
| "writes (WritePost f # evs) = WritePost f # writes evs"
| "writes (SaveManifest m # evs) = SaveManifest m # writes evs"
| "writes (ev # evs) = writes evs"

text \<open>
  A later point of the loop at which nothing was added: the variables are as they
  were, and so are the files and the clock; lines were printed.
\<close>

definition idle :: "loop \<Rightarrow> loop \<Rightarrow> bool" where
  "idle st st' \<longleftrightarrow>
     (\<exists>evs. st' = st\<lparr>wld := (wld st)\<lparr>trace := trace (wld st) @ evs\<rparr>\<rparr> \<and> writes evs = [])"

text \<open>
  A manifest with a key of its own and three posts, the first and the last of the same
  date, and the list as \<open>save_manifest\<close> orders it.
\<close>

definition post_at :: "ustr \<Rightarrow> ustr \<Rightarrow> json" where
  "post_at i d = JDict [(u ''id'', JStr i), (u ''date_iso'', JStr d)]"

definition unsorted_posts :: "json list" where
  "unsorted_posts =
     [post_at (u ''a'') (u ''2024-01-01''), post_at (u ''b'') (u ''2024-01-03''),
      post_at (u ''c'') (u ''2024-01-01'')]"

definition sorted_posts :: "json list" where
  "sorted_posts =
     [post_at (u ''b'') (u ''2024-01-03''), post_at (u ''a'') (u ''2024-01-01''),
      post_at (u ''c'') (u ''2024-01-01'')]"

definition site_manifest :: "json list \<Rightarrow> (ustr \<times> json) list" where
  "site_manifest ps = [(u ''site'', JStr (u ''x'')), (u ''posts'', JList ps)]"

section \<open>A sample run\<close>

text \<open>
  One feed with one entry; the clock, the formats and \<open>str.lower\<close> fixed (for the title
  here, \<open>str.lower\<close> is \<open>ascii_lower\<close>); no manifest and no posts yet, and storage that
  works.
\<close>

definition sample_entry :: entry where
  "sample_entry =
     \<lparr>entry_id = Some (u ''abc123''), entry_link = Some (u ''http://x/1''),
      entry_title = Some (u ''Hello World''), entry_summary = Some (u ''<p>Hi</p>''),
      entry_content = None, published_parsed = None, updated_parsed = None\<rparr>"

definition sample_env :: env where
  "sample_env =
     \<lparr>rss_feeds = Some (u ''f''), items_per_feed = 20,
      fetch = (\<lambda>url. \<lparr>bozo = False, entries = [sample_entry]\<rparr>),
      to_utc = (\<lambda>t. Inl ValueError), now = (\<lambda>n. Datetime 0),
      strftime_ymd = (\<lambda>d. u ''2024-01-02''),
      isoformat = (\<lambda>d. u ''2024-01-02T00:00:00+00:00''),
      str_lower = ascii_lower, sort_other = (\<lambda>ps. Inl TypeError)\<rparr>"

definition fresh_world :: world where
  "fresh_world =
     \<lparr>manifest_file = Absent, ads = NoAds, post_files = [], trace = [], clock = 0,
      failing = (\<lambda>ev. False)\<rparr>"

definition sample_post :: json where
  "sample_post =
     JDict
       [(u ''id'', JStr (u ''abc123'')),
        (u ''title'', JStr (u ''Hello World'')),
        (u ''slug'', JStr (u ''2024-01-02-hello-world.html'')),
        (u ''path'', JStr (u ''posts/2024-01-02-hello-world.html'')),
        (u ''date_iso'', JStr (u ''2024-01-02T00:00:00+00:00'')),
        (u ''source'', JStr (u ''http://x/1'')),
        (u ''summary'', JStr (u ''Hi''))]"

definition sample_manifest :: json where
  "sample_manifest = JDict [(u ''posts'', JList [sample_post])]"

definition sample_document :: ustr where
  "sample_document =
     render_html NoAds (u ''Hello World'') (u ''2024-01-02T00:00:00+00:00'') (u ''<p>Hi</p>'')
       (Some (u ''http://x/1''))"

text \<open>The world after the sample run, and after a second one.\<close>

definition world_after :: world where
  "world_after =
     \<lparr>manifest_file = Stored sample_manifest, ads = NoAds,
      post_files = [(u ''2024-01-02-hello-world.html'', sample_document)],
      trace =
        [EnsureDirs, PrintFetching (u ''f''),
         WritePost (u ''2024-01-02-hello-world.html''),
         PrintWrote (u ''2024-01-02-hello-world.html''),
         SaveManifest sample_manifest, PrintDone 1, PrintTotal 1],
      clock = 1, failing = (\<lambda>ev. False)\<rparr>"

definition world_after_second :: world where
  "world_after_second =
     world_after
       \<lparr>trace := trace world_after @
          [EnsureDirs, PrintFetching (u ''f''), SaveManifest sample_manifest,
           PrintDone 0, PrintTotal 1]\<rparr>"

text \<open>
  \<open>list.sort\<close> works in place: the list it leaves holds the posts it was given. This
  is said of the parameter of \<open>sort_posts\<close> where a property needs it.
\<close>

definition permutes :: "(json list \<Rightarrow> error + json list) \<Rightarrow> bool" where
  "permutes other \<longleftrightarrow> (\<forall>ps ps'. other ps = Inr ps' \<longrightarrow> mset ps' = mset ps)"

text \<open>
  A stable sort: what it leaves is a permutation of the list, in an order that it would
  leave as it is.
\<close>

definition settled :: "(json list \<Rightarrow> error + json list) \<Rightarrow> bool" where
  "settled other \<longleftrightarrow>
     (\<forall>ps ps'. other ps = Inr ps' \<longrightarrow> mset ps' = mset ps \<and> other ps' = Inr ps')"

text \<open>
  The sample with a feed that gives no entry, and with \<open>RSS_FEEDS\<close> set to a comma;
  a manifest with two posts of the same id.
\<close>

definition quiet_env :: env where
  "quiet_env = sample_env\<lparr>fetch := (\<lambda>url. \<lparr>bozo = False, entries = []\<rparr>)\<rparr>"

definition nofeeds_env :: env where
  "nofeeds_env = sample_env\<lparr>rss_feeds := Some (u '','')\<rparr>"

definition twice_manifest :: json where
  "twice_manifest =
     JDict [(u ''posts'',
       JList [post_at (u ''a'') (u ''2024-01-03''), post_at (u ''a'') (u ''2024-01-01'')])]"

text \<open>
  A world whose manifest file holds the manifest with a key of its own, and that world
  after a run with the feed that gives no entry.
\<close>

definition site_world :: world where
  "site_world = fresh_world\<lparr>manifest_file := Stored (JDict (site_manifest unsorted_posts))\<rparr>"

definition site_world_after :: world where
  "site_world_after =
     fresh_world
       \<lparr>manifest_file := Stored (JDict (site_manifest sorted_posts)),
        trace :=
          [EnsureDirs, PrintFetching (u ''f''), PrintNoEntries,
           SaveManifest (JDict (site_manifest sorted_posts)), PrintDone 0, PrintTotal 3]\<rparr>"

text \<open>A world whose manifest file holds the manifest with two posts of the same id.\<close>

definition twice_world :: world where
  "twice_world = fresh_world\<lparr>manifest_file := Stored twice_manifest\<rparr>"

definition twice_world_after :: world where
  "twice_world_after =
     fresh_world
       \<lparr>manifest_file := Stored twice_manifest,
        trace :=
          [EnsureDirs, PrintFetching (u ''f''), PrintNoEntries,
           SaveManifest twice_manifest, PrintDone 0, PrintTotal 2]\<rparr>"

section \<open>Stripping and run replacement\<close>

lemma py_rstrip_decomp: "py_rstrip P s @ rev (takeWhile P (rev s)) = s"
proof -
  have "rev (takeWhile P (rev s) @ dropWhile P (rev s)) = s" by simp
  then show ?thesis unfolding py_rstrip_def rev_append .
qed

lemma set_py_rstrip: "set (py_rstrip P s) \<subseteq> set s"
  using set_dropWhileD [of _ P "rev s"] by (auto simp: py_rstrip_def)

lemma set_py_strip: "set (py_strip P s) \<subseteq> set s"
  using set_py_rstrip [of P "dropWhile P s"] set_dropWhileD [of _ P s]
  by (auto simp: py_strip_def py_lstrip_def)

lemma last_py_rstrip: "py_rstrip P s \<noteq> [] \<Longrightarrow> \<not> P (last (py_rstrip P s))"
  by (simp add: py_rstrip_def last_rev hd_dropWhile)

lemma hd_py_rstrip: "py_rstrip P s \<noteq> [] \<Longrightarrow> hd (py_rstrip P s) = hd s"
  using py_rstrip_decomp [of P s] by (metis hd_append2)

lemma py_rstrip_Nil_iff: "py_rstrip P s = [] \<longleftrightarrow> (\<forall>x\<in>set s. P x)"
  by (auto simp: py_rstrip_def dropWhile_eq_Nil_conv)

lemma hd_py_strip: "py_strip P s \<noteq> [] \<Longrightarrow> \<not> P (hd (py_strip P s))"
proof -
  assume ne: "py_strip P s \<noteq> []"
  then have "hd (py_strip P s) = hd (dropWhile P s)"
    by (simp add: py_strip_def py_lstrip_def hd_py_rstrip)
  moreover have "dropWhile P s \<noteq> []"
  proof
    assume d: "dropWhile P s = []"
    have "py_strip P s = []" unfolding py_strip_def py_lstrip_def py_rstrip_def d by simp
    with ne show False by simp
  qed
  ultimately show ?thesis by (simp add: hd_dropWhile)
qed

lemma last_py_strip: "py_strip P s \<noteq> [] \<Longrightarrow> \<not> P (last (py_strip P s))"
  by (simp add: py_strip_def last_py_rstrip)

lemma successively_dropWhile: "successively R s \<Longrightarrow> successively R (dropWhile P s)"
  by (metis successively_append_iff takeWhile_dropWhile_id)

lemma successively_py_rstrip: "successively R s \<Longrightarrow> successively R (py_rstrip P s)"
  using py_rstrip_decomp [of P s] by (metis successively_append_iff)

lemma successively_py_strip: "successively R s \<Longrightarrow> successively R (py_strip P s)"
  by (simp add: py_strip_def py_lstrip_def successively_dropWhile successively_py_rstrip)

lemma set_re_sub_runs: "set (re_sub_runs P r s) \<subseteq> insert r {c \<in> set s. \<not> P c}"
  by (induction P r s rule: re_sub_runs.induct) (auto dest: set_dropWhileD)

lemma set_re_sub_runs2: "set (re_sub_runs2 P r s) \<subseteq> insert r (set s)"
  by (induction P r s rule: re_sub_runs2.induct) (auto dest: set_dropWhileD)

lemma re_sub_runs2_hd: "\<not> P x \<Longrightarrow> hd (re_sub_runs2 P r (x # xs)) = x"
  by simp

lemma successively_re_sub_runs2:
  "P r \<Longrightarrow> successively (\<lambda>a b. \<not> (P a \<and> P b)) (re_sub_runs2 P r s)"
proof (induction P r s rule: re_sub_runs2.induct)
  case (1 P r)
  then show ?case by simp
next
  case (2 P r c cs)
  show ?case
  proof (cases "P c \<and> cs \<noteq> [] \<and> P (hd cs)")
    case True
    have "\<not> P (hd (re_sub_runs2 P r (dropWhile P cs)))" if ne: "dropWhile P cs \<noteq> []"
    proof -
      obtain x xs where d: "dropWhile P cs = x # xs" using ne by (meson neq_Nil_conv)
      have "\<not> P x" using hd_dropWhile [OF ne] d by simp
      then show ?thesis by (simp add: d)
    qed
    moreover have "re_sub_runs2 P r (dropWhile P cs) = []" if e: "dropWhile P cs = []"
      unfolding e by simp
    moreover have "successively (\<lambda>a b. \<not> (P a \<and> P b)) (re_sub_runs2 P r (dropWhile P cs))"
      using 2 True by simp
    moreover have "re_sub_runs2 P r (c # cs) = r # re_sub_runs2 P r (dropWhile P cs)"
      using True by simp
    ultimately show ?thesis
      by (cases "re_sub_runs2 P r (dropWhile P cs)") (auto simp: successively_Cons)
  next
    case False
    then show ?thesis using 2 by (cases cs) (auto simp: successively_Cons)
  qed
qed

lemma slug_valid_iff: "\<not> slug_invalid c \<longleftrightarrow> slug_char c \<or> c = 45"
  by (simp add: slug_invalid_def slug_char_def)

lemma slug_char_hyphen: "\<not> slug_char 45"
  by (simp add: slug_char_def)

lemma slug_re_char:
  "(\<forall>c\<in>set s. slug_char c \<or> c = 45) \<Longrightarrow> successively (\<lambda>a b. \<not> (a = 45 \<and> b = 45)) s \<Longrightarrow>
   last s \<noteq> 45 \<Longrightarrow> s \<noteq> [] \<Longrightarrow> hd s \<noteq> 45 \<Longrightarrow> slug_re s"
  "(\<forall>c\<in>set s. slug_char c \<or> c = 45) \<Longrightarrow> successively (\<lambda>a b. \<not> (a = 45 \<and> b = 45)) s \<Longrightarrow>
   (s \<noteq> [] \<longrightarrow> last s \<noteq> 45) \<Longrightarrow> slug_re_rest s"
proof (induction s and s rule: slug_re_slug_re_rest.induct)
  case 1
  then show ?case by simp
next
  case (2 c cs)
  have "slug_char c" using 2(2,6) by auto
  moreover have "successively (\<lambda>a b. \<not> (a = 45 \<and> b = 45)) cs"
    using 2(3) by (auto simp: successively_Cons)
  moreover have "cs \<noteq> [] \<longrightarrow> last cs \<noteq> 45" using 2(4) by auto
  ultimately show ?case using 2(1) 2(2) by simp
next
  case 3
  then show ?case by simp
next
  case (4 c cs)
  have sc: "successively (\<lambda>a b. \<not> (a = 45 \<and> b = 45)) cs"
    using 4(4) by (auto simp: successively_Cons)
  have la: "cs \<noteq> [] \<longrightarrow> last cs \<noteq> 45" using 4(5) by auto
  have va: "\<forall>c\<in>set cs. slug_char c \<or> c = 45" using 4(3) by simp
  show ?case
  proof (cases "slug_char c")
    case True
    then show ?thesis using 4(1) [OF True va sc la] by simp
  next
    case False
    then have c: "c = 45" using 4(3) by simp
    have ne: "cs \<noteq> []" using 4(5) c by auto
    then have "hd cs \<noteq> 45" using 4(4) c by (cases cs) (auto simp: successively_Cons)
    moreover have "last cs \<noteq> 45" using la ne by simp
    ultimately have "slug_re cs" using 4(2) [OF False va sc _ ne] by simp
    then show ?thesis using False c by simp
  qed
qed

text \<open>
  C7. For every title, whatever \<open>str.lower\<close> does to it (so for the empty string, for
  text of punctuation only and for Unicode text alike), the slug is the literal
  \<open>post\<close> or matches \<open>^[a-z0-9]+(-[a-z0-9]+)*$\<close>.
\<close>

theorem slugify_safe: "slugify lower text = u ''post'' \<or> slug_re (slugify lower text)"
proof -
  define t3 where "t3 = re_sub_runs slug_invalid 45 (re_sub_runs is_space 45 (py_strip is_space (lower text)))"
  define t4 where "t4 = py_strip (\<lambda>c. c = 45) (re_sub_runs2 (\<lambda>c. c = 45) 45 t3)"
  have v3: "\<forall>c\<in>set t3. slug_char c \<or> c = 45"
    using set_re_sub_runs [of slug_invalid 45] unfolding t3_def slug_valid_iff by blast
  have v4: "\<forall>c\<in>set t4. slug_char c \<or> c = 45"
    using v3 set_py_strip [of "\<lambda>c. c = 45"] set_re_sub_runs2 [of "\<lambda>c. c = 45" 45 t3]
    unfolding t4_def by blast
  have s4: "successively (\<lambda>a b. \<not> (a = 45 \<and> b = 45)) t4"
    unfolding t4_def by (intro successively_py_strip successively_re_sub_runs2) simp
  have "slug_re t4" if ne: "t4 \<noteq> []"
  proof -
    have "hd t4 \<noteq> 45"
      using ne hd_py_strip [of "\<lambda>c. c = 45" "re_sub_runs2 (\<lambda>c. c = 45) 45 t3"]
      by (simp add: t4_def)
    moreover have "last t4 \<noteq> 45"
      using ne last_py_strip [of "\<lambda>c. c = 45" "re_sub_runs2 (\<lambda>c. c = 45) 45 t3"]
      by (simp add: t4_def)
    ultimately show ?thesis using slug_re_char(1) [OF v4 s4 _ ne] by simp
  qed
  moreover have "slugify lower text = (if t4 = [] then u ''post'' else t4)"
    by (simp add: slugify_def t4_def t3_def Let_def)
  ultimately show ?thesis by auto
qed

theorem slugify_safe_witness:
  "slugify ascii_lower (u ''?!'') = u ''post'' \<and>
   slug_re (slugify ascii_lower (u ''  Hello,   World!! -- 2024 ''))"
proof -
  have a: "slugify ascii_lower (u ''  Hello,   World!! -- 2024 '') = u ''hello-world-2024''"
    by (simp add: slugify_def ascii_lower_def u_def py_strip_def py_lstrip_def py_rstrip_def
        is_space_def slug_invalid_def)
  have b: "slugify ascii_lower (u ''?!'') = u ''post''"
    by (simp add: slugify_def ascii_lower_def u_def py_strip_def py_lstrip_def py_rstrip_def
        is_space_def slug_invalid_def)
  have "u ''hello-world-2024'' \<noteq> u ''post''" by (simp add: u_def)
  then show ?thesis
    using slugify_safe [of ascii_lower "u ''  Hello,   World!! -- 2024 ''"] a b by simp
qed

section \<open>Summaries hold no tag and keep to the length\<close>

lemma after_tag_None_iff: "after_tag cs \<noteq> None \<longleftrightarrow> cs \<noteq> [] \<and> hd cs \<noteq> 62 \<and> 62 \<in> set cs"
proof -
  have "after_tag cs \<noteq> None \<longleftrightarrow>
      takeWhile (\<lambda>c. c \<noteq> 62) cs \<noteq> [] \<and> dropWhile (\<lambda>c. c \<noteq> 62) cs \<noteq> []"
    by (cases "dropWhile (\<lambda>c. c \<noteq> 62) cs") (simp_all add: after_tag_def del: dropWhile_eq_Nil_conv)
  then show ?thesis by (auto simp: takeWhile_eq_Nil_iff)
qed

lemma after_tag_eq_None: "after_tag cs = None \<longleftrightarrow> cs = [] \<or> hd cs = 62 \<or> 62 \<notin> set cs"
  using after_tag_None_iff [of cs] by blast

lemma has_tag_Cons:
  "has_tag (c # cs) \<longleftrightarrow> (c = 60 \<and> cs \<noteq> [] \<and> hd cs \<noteq> 62 \<and> 62 \<in> set cs) \<or> has_tag cs"
  using after_tag_None_iff [of cs] by simp

lemma has_tag_suffix: "has_tag ys \<Longrightarrow> has_tag (xs @ ys)"
  by (induction xs) (auto simp: has_tag_Cons simp del: has_tag.simps(2))

lemma has_tag_prefix: "has_tag xs \<Longrightarrow> has_tag (xs @ ys)"
  by (induction xs) (auto simp: has_tag_Cons simp del: has_tag.simps(2))

lemma has_tag_snoc: "e \<noteq> 62 \<Longrightarrow> has_tag (xs @ [e]) \<Longrightarrow> has_tag xs"
  by (induction xs) (auto simp: has_tag_Cons hd_append simp del: has_tag.simps(2) split: if_splits)

lemma has_tag_dropWhile: "has_tag (dropWhile P xs) \<Longrightarrow> has_tag xs"
  using has_tag_suffix [of "dropWhile P xs" "takeWhile P xs"] by simp

lemma has_tag_py_rstrip: "has_tag (py_rstrip P xs) \<Longrightarrow> has_tag xs"
  using has_tag_prefix [of "py_rstrip P xs" "rev (takeWhile P (rev xs))"]
  by (simp add: py_rstrip_decomp)

lemma has_tag_py_strip: "has_tag (py_strip P xs) \<Longrightarrow> has_tag xs"
  by (auto simp: py_strip_def py_lstrip_def dest!: has_tag_py_rstrip has_tag_dropWhile)

lemma has_tag_take: "has_tag (take n xs) \<Longrightarrow> has_tag xs"
  using has_tag_prefix [of "take n xs" "drop n xs"] by simp

lemma has_tag_py_prefix: "has_tag (py_prefix k xs) \<Longrightarrow> has_tag xs"
  by (auto simp: py_prefix_def split: if_splits dest: has_tag_take)

lemma set_strip_tags: "set (strip_tags s) \<subseteq> insert 32 (set s)"
proof (induction s rule: strip_tags.induct)
  case 1
  then show ?case by simp
next
  case (2 c cs)
  show ?case
  proof (cases "c = 60 \<and> after_tag cs \<noteq> None")
    case True
    then obtain rest where r: "after_tag cs = Some rest" by auto
    then have "set rest \<subseteq> set cs"
      by (auto simp: after_tag_def split: if_splits list.splits dest: set_dropWhileD
          dest!: arg_cong [where f = set])
    then show ?thesis using 2 True r by auto
  next
    case False
    then show ?thesis using 2 by auto
  qed
qed

lemma strip_tags_hd: "c \<noteq> 60 \<Longrightarrow> strip_tags (c # cs) = c # strip_tags cs"
  by simp

lemma after_tag_strip_tags: "after_tag cs = None \<Longrightarrow> after_tag (strip_tags cs) = None"
proof -
  assume a: "after_tag cs = None"
  then have "cs = [] \<or> hd cs = 62 \<or> 62 \<notin> set cs"
    using after_tag_None_iff [of cs] by auto
  moreover have "after_tag (strip_tags cs) = None" if "cs = []"
    using that by (simp add: after_tag_def)
  moreover have "after_tag (strip_tags cs) = None" if "cs \<noteq> []" "hd cs = 62"
    using that by (cases cs) (auto simp: after_tag_def)
  moreover have "after_tag (strip_tags cs) = None" if "62 \<notin> set cs"
  proof -
    have "62 \<notin> set (strip_tags cs)" using set_strip_tags [of cs] that by auto
    then show ?thesis using after_tag_eq_None [of "strip_tags cs"] by blast
  qed
  ultimately show ?thesis by (cases "cs = []") auto
qed

lemma no_tag_strip_tags: "\<not> has_tag (strip_tags s)"
proof (induction s rule: strip_tags.induct)
  case 1
  then show ?case by simp
next
  case (2 c cs)
  show ?case
  proof (cases "c = 60 \<and> after_tag cs \<noteq> None")
    case True
    then show ?thesis using 2 by simp
  next
    case False
    then have "c = 60 \<longrightarrow> after_tag (strip_tags cs) = None"
      using after_tag_strip_tags by auto
    then show ?thesis using 2 False by auto
  qed
qed

lemma re_sub_runs_opens:
  assumes "\<not> P 62" "r \<noteq> 62" "after_tag (re_sub_runs P r cs) \<noteq> None"
  shows "after_tag cs \<noteq> None"
proof -
  have ne: "cs \<noteq> []" using assms(3) by (cases cs) (auto simp: after_tag_def)
  have "62 \<in> set (re_sub_runs P r cs)" using assms(3) after_tag_None_iff by blast
  then have m: "62 \<in> set cs" using set_re_sub_runs [of P r cs] assms(2) by auto
  have "hd cs \<noteq> 62"
  proof
    assume "hd cs = 62"
    then have "hd (re_sub_runs P r cs) = 62" using ne assms(1) by (cases cs) auto
    then show False using assms(3) after_tag_None_iff by blast
  qed
  then show ?thesis using ne m after_tag_None_iff by blast
qed

lemma has_tag_re_sub_runs:
  "\<not> P 62 \<Longrightarrow> r \<noteq> 62 \<Longrightarrow> r \<noteq> 60 \<Longrightarrow> has_tag (re_sub_runs P r s) \<Longrightarrow> has_tag s"
proof (induction P r s rule: re_sub_runs.induct)
  case (1 P r)
  then show ?case by simp
next
  case (2 P r c cs)
  show ?case
  proof (cases "P c")
    case True
    then have "has_tag (re_sub_runs P r (dropWhile P cs))" using 2(6) 2(5) by simp
    then have "has_tag (dropWhile P cs)" using 2(1) [OF True] 2(3,4,5) by simp
    then show ?thesis using has_tag_dropWhile by auto
  next
    case False
    then have "(c = 60 \<and> after_tag (re_sub_runs P r cs) \<noteq> None) \<or> has_tag (re_sub_runs P r cs)"
      using 2(6) by simp
    then show ?thesis
      using 2(2) [OF False] 2(3,4,5) re_sub_runs_opens [of P r cs] by auto
  qed
qed

lemma successively_re_sub_runs:
  "P r \<Longrightarrow> successively (\<lambda>a b. \<not> (P a \<and> P b)) (re_sub_runs P r s)"
proof (induction P r s rule: re_sub_runs.induct)
  case (1 P r)
  then show ?case by simp
next
  case (2 P r c cs)
  show ?case
  proof (cases "P c")
    case True
    have "\<not> P (hd (re_sub_runs P r (dropWhile P cs)))" if ne: "dropWhile P cs \<noteq> []"
    proof -
      obtain x xs where d: "dropWhile P cs = x # xs" using ne by (meson neq_Nil_conv)
      have "\<not> P x" using hd_dropWhile [OF ne] d by simp
      then show ?thesis by (simp add: d)
    qed
    moreover have "re_sub_runs P r (dropWhile P cs) = []" if e: "dropWhile P cs = []"
      unfolding e by simp
    moreover have "successively (\<lambda>a b. \<not> (P a \<and> P b)) (re_sub_runs P r (dropWhile P cs))"
      using 2 True by simp
    moreover have "re_sub_runs P r (c # cs) = r # re_sub_runs P r (dropWhile P cs)"
      using True by simp
    ultimately show ?thesis
      by (cases "re_sub_runs P r (dropWhile P cs)") (auto simp: successively_Cons)
  next
    case False
    then show ?thesis using 2 by (auto simp: successively_Cons)
  qed
qed

lemma py_rstrip_snoc: "py_rstrip P (xs @ [x]) = (if P x then py_rstrip P xs else xs @ [x])"
  by (simp add: py_rstrip_def)

lemma py_rstrip_id: "xs = [] \<or> \<not> P (last xs) \<Longrightarrow> py_rstrip P xs = xs"
  by (cases xs rule: rev_cases) (auto simp: py_rstrip_snoc, simp add: py_rstrip_def)

lemma no_tag_plain_text: "\<not> has_tag (plain_text html)"
  using no_tag_strip_tags [of html]
    has_tag_re_sub_runs [of is_space 32 "strip_tags html"]
    has_tag_py_strip [of is_space "re_sub_runs is_space 32 (strip_tags html)"]
  by (auto simp: plain_text_def is_space_def)

lemma plain_text_no_double_space:
  "successively (\<lambda>a b. \<not> (is_space a \<and> is_space b)) (plain_text html)"
  unfolding plain_text_def
  by (intro successively_py_strip successively_re_sub_runs) (simp add: is_space_def)

lemma plain_text_hd: "plain_text html \<noteq> [] \<Longrightarrow> \<not> is_space (plain_text html ! 0)"
  using hd_py_strip [of is_space "re_sub_runs is_space 32 (strip_tags html)"]
  by (simp add: plain_text_def hd_conv_nth)

lemma rstrip_take:
  assumes s: "successively (\<lambda>a b. \<not> (P a \<and> P b)) txt"
    and h: "\<not> P (txt ! 0)" and n: "n < length txt"
  shows "length (py_rstrip P (take n txt)) = (if 0 < n \<and> P (txt ! (n - 1)) then n - 1 else n)"
proof (cases n)
  case 0
  then show ?thesis by (simp add: py_rstrip_def)
next
  case (Suc m)
  have t: "take (Suc m) txt = take m txt @ [txt ! m]"
    using n Suc by (simp add: take_Suc_conv_app_nth)
  show ?thesis
  proof (cases "P (txt ! m)")
    case False
    then show ?thesis using n unfolding Suc t by (simp add: py_rstrip_snoc)
  next
    case True
    then have "m \<noteq> 0" using h by (cases m) auto
    then obtain k where k: "m = Suc k" by (cases m) auto
    have "\<not> P (txt ! k)"
      using successively_nth [OF s, of k] True n Suc k by auto
    moreover have "take (Suc k) txt = take k txt @ [txt ! k]"
      using n Suc k by (simp add: take_Suc_conv_app_nth)
    ultimately have "py_rstrip P (take m txt) = take m txt"
      unfolding k by (simp add: py_rstrip_snoc)
    then show ?thesis using True n unfolding Suc t by (simp add: py_rstrip_snoc)
  qed
qed

lemma summarize_text_cut:
  assumes "1 \<le> max_len" and "max_len < int (length (plain_text html))"
  shows "summarize_text html max_len =
    py_rstrip is_space (take (nat (max_len - 1)) (plain_text html)) @ [8230]"
  using assms by (simp add: summarize_text_def py_prefix_def)

lemma summarize_text_no_tag:
  assumes "1 \<le> max_len" and "max_len < int (length (plain_text html))"
  shows "\<not> has_tag (summarize_text html max_len)"
  unfolding summarize_text_cut [OF assms]
  using has_tag_snoc [of 8230 "py_rstrip is_space (take (nat (max_len - 1)) (plain_text html))"]
    has_tag_py_rstrip [of is_space "take (nat (max_len - 1)) (plain_text html)"]
    has_tag_take [of "nat (max_len - 1)" "plain_text html"]
    no_tag_plain_text [of html]
  by auto

lemma summarize_text_length:
  assumes "1 \<le> max_len" and "max_len < int (length (plain_text html))"
  shows "int (length (summarize_text html max_len)) =
       (if 2 \<le> max_len \<and> is_space (plain_text html ! nat (max_len - 2))
        then max_len - 1 else max_len)"
proof -
  define ptxt where "ptxt = plain_text html"
  define n where "n = nat (max_len - 1)"
  have n: "n < length ptxt" using assms by (simp add: n_def ptxt_def)
  have "length (py_rstrip is_space (take n ptxt)) =
      (if 0 < n \<and> is_space (ptxt ! (n - 1)) then n - 1 else n)"
  proof (rule rstrip_take [OF _ _ n])
    show "successively (\<lambda>a b. \<not> (is_space a \<and> is_space b)) ptxt"
      unfolding ptxt_def by (rule plain_text_no_double_space)
    have "ptxt \<noteq> []" using n by auto
    then show "\<not> is_space (ptxt ! 0)" unfolding ptxt_def by (rule plain_text_hd)
  qed
  moreover have "nat (max_len - 2) = n - 1" by (simp add: n_def)
  moreover have "0 < n \<longleftrightarrow> 2 \<le> max_len" using assms by (auto simp: n_def)
  moreover have "int n = max_len - 1" using assms by (simp add: n_def)
  ultimately show ?thesis
    unfolding summarize_text_cut [OF assms] ptxt_def [symmetric] n_def [symmetric] by auto
qed

text \<open>
  C6 (as amended). When the plain text of the input (tags replaced, white space
  collapsed and stripped) is longer than a maximum length of at least 1, the summary
  ends with the ellipsis, holds no markup tag, and its length is the maximum length,
  or one less when the character before the cut is a space: the cut-off text is
  stripped on the right before the ellipsis is appended.
\<close>

theorem summarize_text_truncated:
  assumes "1 \<le> max_len" and "max_len < int (length (plain_text html))"
  shows "summarize_text html max_len \<noteq> [] \<and>
     last (summarize_text html max_len) = 8230 \<and>
     \<not> has_tag (summarize_text html max_len) \<and>
     int (length (summarize_text html max_len)) =
       (if 2 \<le> max_len \<and> is_space (plain_text html ! nat (max_len - 2))
        then max_len - 1 else max_len)"
  using summarize_text_no_tag [OF assms] summarize_text_length [OF assms]
  by (simp add: summarize_text_cut [OF assms])

lemma strip_tags_id: "60 \<notin> set s \<Longrightarrow> strip_tags s = s"
  by (induction s) auto

lemma re_sub_runs_id:
  "(\<forall>x\<in>set s. P x \<longrightarrow> x = r) \<Longrightarrow> successively (\<lambda>a b. \<not> (P a \<and> P b)) s \<Longrightarrow>
   re_sub_runs P r s = s"
proof (induction P r s rule: re_sub_runs.induct)
  case (1 P r)
  then show ?case by simp
next
  case (2 P r c cs)
  have sc: "successively (\<lambda>a b. \<not> (P a \<and> P b)) cs"
    using 2(4) by (auto simp: successively_Cons)
  show ?case
  proof (cases "P c")
    case True
    then have "cs = [] \<or> \<not> P (hd cs)" using 2(4) by (auto simp: successively_Cons)
    then have d: "dropWhile P cs = cs" by (cases cs) auto
    show ?thesis using True 2(1) 2(3) sc by (simp add: d)
  next
    case False
    then show ?thesis using 2(2) 2(3) sc by simp
  qed
qed

lemma py_strip_id: "s \<noteq> [] \<Longrightarrow> \<not> P (hd s) \<Longrightarrow> \<not> P (last s) \<Longrightarrow> py_strip P s = s"
  by (cases s) (auto simp: py_strip_def py_lstrip_def py_rstrip_id)

lemma successively_replicate: "R x x \<Longrightarrow> successively R (replicate n x)"
proof (induction n)
  case 0
  then show ?case by simp
next
  case (Suc n)
  then show ?case by (cases n) (auto simp: successively_Cons)
qed

lemma plain_long_text: "plain_text long_text = long_text"
proof -
  have a: "strip_tags long_text = long_text"
    by (rule strip_tags_id) (auto simp: long_text_def)
  have "successively (\<lambda>a b. \<not> (is_space a \<and> is_space b)) (replicate 278 (97::nat))"
    by (rule successively_replicate) (simp add: is_space_def)
  then have "successively (\<lambda>a b. \<not> (is_space a \<and> is_space b)) long_text"
    by (simp add: long_text_def successively_append_iff is_space_def)
  then have b: "re_sub_runs is_space 32 long_text = long_text"
    by (intro re_sub_runs_id) (auto simp: long_text_def is_space_def)
  have c: "py_strip is_space long_text = long_text"
    by (rule py_strip_id) (simp_all add: long_text_def is_space_def hd_append)
  show ?thesis by (simp add: plain_text_def a b c)
qed

text \<open>
  C6 as stated fails: for 278 letters, a space and two more letters, and the default
  maximum of 280, the summary has 279 characters.
\<close>

theorem summarize_text_length_counterexample:
  "280 < int (length (plain_text long_text)) \<and> length (summarize_text long_text 280) = 279"
proof -
  have l: "280 < int (length (plain_text long_text))"
    by (simp add: plain_long_text) (simp add: long_text_def)
  have "plain_text long_text ! 278 = 32"
    by (simp add: plain_long_text) (simp add: long_text_def nth_append)
  then have "int (length (summarize_text long_text 280)) = 279"
    using summarize_text_length [of 280 long_text] l by (simp add: is_space_def)
  then show ?thesis using l by simp
qed

lemma plain_short: "plain_text short_html = u ''Hello big world''"
  by (simp add: plain_text_def short_html_def u_def after_tag_def is_space_def py_strip_def py_lstrip_def py_rstrip_def)

theorem summarize_text_truncated_witness:
  "(1::int) \<le> 8 \<and> 8 < int (length (plain_text short_html)) \<and>
   summarize_text short_html 8 \<noteq> [] \<and>
   last (summarize_text short_html 8) = 8230 \<and>
   \<not> has_tag (summarize_text short_html 8) \<and>
   int (length (summarize_text short_html 8)) = 8"
proof -
  have l: "8 < int (length (plain_text short_html))"
    by (simp add: plain_short) (simp add: u_def)
  have "plain_text short_html ! 6 = 98"
    by (simp add: plain_short) (simp add: u_def)
  then show ?thesis
    using summarize_text_truncated [of 8 short_html] l by (simp add: is_space_def)
qed

section \<open>Loading\<close>

lemma load_manifest_cases:
  "load_manifest f =
     (case f of
        Inaccessible \<Rightarrow> Inl OSError
      | Stored data \<Rightarrow> Inr (if well_shaped data then data else empty_manifest)
      | _ \<Rightarrow> Inr empty_manifest)"
  by (cases f) (simp_all add: load_manifest_def load_try_def)

lemma well_shaped_empty: "well_shaped empty_manifest"
  by (simp add: empty_manifest_def)

lemma load_manifest_well_shaped: "load_manifest f = Inr m \<Longrightarrow> well_shaped m"
  by (cases f) (auto simp: load_manifest_cases well_shaped_empty)

text \<open>
  C4. \<open>load_manifest\<close> does raise on one state of the manifest file: where
  \<open>MANIFEST_PATH.exists()\<close> raises, the error leaves \<open>load_manifest\<close>, since the test
  stands before the \<open>try\<close>, although the comment of the handler promises a reset for an
  unreadable manifest. On every other state it is as the claim says: where the file is
  absent, where reading or parsing it raises, and where the parsed value is not a
  \<open>dict\<close> with a list under \<open>posts\<close>, it returns the empty manifest; otherwise it
  returns the parsed value.
\<close>

theorem load_manifest_recovers:
  "(f \<noteq> Inaccessible \<longrightarrow> (\<exists>m. load_manifest f = Inr m)) \<and>
   load_manifest Absent = Inr empty_manifest \<and>
   load_manifest (Unreadable e) = Inr empty_manifest \<and>
   load_manifest (Stored data) = Inr (if well_shaped data then data else empty_manifest) \<and>
   well_shaped (JDict d) = (\<exists>ps. map_of d (u ''posts'') = Some (JList ps)) \<and>
   (\<forall>v. (\<forall>d. v \<noteq> JDict d) \<longrightarrow> \<not> well_shaped v)"
proof -
  have "well_shaped (JDict d) = (\<exists>ps. map_of d (u ''posts'') = Some (JList ps))"
    by (auto split: option.splits json.splits)
  moreover have "\<forall>v. (\<forall>d. v \<noteq> JDict d) \<longrightarrow> \<not> well_shaped v"
  proof (intro allI impI)
    fix v :: json
    assume "\<forall>d. v \<noteq> JDict d"
    then show "\<not> well_shaped v" by (cases v) auto
  qed
  moreover have "f \<noteq> Inaccessible \<longrightarrow> (\<exists>m. load_manifest f = Inr m)"
    by (cases f) (simp_all add: load_manifest_cases)
  ultimately show ?thesis by (simp add: load_manifest_cases)
qed

theorem load_manifest_recovers_witness:
  "load_manifest (Stored (JList [])) = Inr empty_manifest \<and>
   load_manifest (Stored (JDict [(u ''posts'', JInt 3)])) = Inr empty_manifest \<and>
   load_manifest (Stored (JDict [(u ''title'', JStr (u ''x''))])) = Inr empty_manifest \<and>
   load_manifest (Stored (JDict [(u ''v'', JInt 1), (u ''posts'', JList [JInt 3])])) =
     Inr (JDict [(u ''v'', JInt 1), (u ''posts'', JList [JInt 3])]) \<and>
   (\<exists>m. load_manifest (Unreadable ValueError) = Inr m)"
proof -
  have a: "\<not> well_shaped (JList [])" by simp
  have b: "\<not> well_shaped (JDict [(u ''posts'', JInt 3)])" by simp
  have c: "\<not> well_shaped (JDict [(u ''title'', JStr (u ''x''))])" by (simp add: u_def)
  have d: "well_shaped (JDict [(u ''v'', JInt 1), (u ''posts'', JList [JInt 3])])"
    by (simp add: u_def)
  show ?thesis
    using load_manifest_recovers [of "Unreadable ValueError" OSError "JList []" "[]"]
      load_manifest_recovers [of Absent OSError "JDict [(u ''posts'', JInt 3)]" "[]"]
      load_manifest_recovers [of Absent OSError "JDict [(u ''title'', JStr (u ''x''))]" "[]"]
      load_manifest_recovers [of Absent OSError
        "JDict [(u ''v'', JInt 1), (u ''posts'', JList [JInt 3])]" "[]"]
      a b c d
    by simp
qed

text \<open>
  C4 fails on the code for the manifest file that \<open>exists\<close> cannot look at:
  \<open>load_manifest\<close> raises \<open>OSError\<close>.
\<close>

theorem load_manifest_raises: "load_manifest Inaccessible = Inl OSError"
  by (simp add: load_manifest_def)

section \<open>Identities are not empty\<close>

lemma length_sha1_hex: "length (sha1_hex m) = 40"
  by (cases "foldl sha1_block (0x67452301, 0xEFCDAB89, 0x98BADCFE, 0x10325476, 0xC3D2E1F0)
      (chunks 64 (sha1_pad m))") (simp add: sha1_hex_def hex_word_def)

lemma post_identity_nonempty: "post_identity e \<noteq> []"
proof -
  have "sha1_hex (utf8_encode (identity_base e)) \<noteq> []"
    using length_sha1_hex [of "utf8_encode (identity_base e)"] by auto
  moreover have "present x \<Longrightarrow> the x \<noteq> []" for x :: "ustr option"
    by (cases x) auto
  ultimately show ?thesis by (simp add: post_identity_def)
qed

section \<open>Identities\<close>

lemma sha1_extend_numeral:
  "sha1_extend (numeral n) ws =
     sha1_extend (pred_numeral n) (rotl 1 (ws ! 2 XOR ws ! 7 XOR ws ! 13 XOR ws ! 15) # ws)"
  by (simp add: numeral_eq_Suc)

lemma m1_pad: "sha1_pad [97, 124, 98] = [97, 124, 98, 128, 0, 0, 0, 0, 0, 0, 0, 0, 0, 0, 0, 0, 0, 0, 0, 0, 0, 0, 0, 0, 0, 0, 0, 0, 0, 0, 0, 0, 0, 0, 0, 0, 0, 0, 0, 0, 0, 0, 0, 0, 0, 0, 0, 0, 0, 0, 0, 0, 0, 0, 0, 0, 0, 0, 0, 0, 0, 0, 0, 24]"
  by code_simp

lemma m1_schedule: "schedule (sha1_pad [97, 124, 98]) = [1635541632, 0, 0, 0, 0, 0, 0, 0, 0, 0, 0, 0, 0, 0, 0, 24, 3271083264, 0, 48, 2247199233, 0, 96, 199431171, 48, 2247199425, 398862342, 0, 384, 797724684, 240, 2453119239, 1595449416, 2383584770, 1536, 3190898928, 398863302, 1222542366, 2086830241, 398862342, 6336, 4009961668, 3840, 595202169, 4052354277, 3939169323, 24768, 4107413453, 1805948231, 3191942637, 3324512791, 2086831009, 1222575326, 3891569736, 62976, 2307934114, 413158815, 3832661664, 2086964385, 1524913369, 3125365942, 185726495, 1652600508, 4069786216, 2088389025, 2309328032, 983040, 2047898915, 4133905808, 3404999658, 6340608, 3525823988, 2761246443, 1856093618, 671751110, 518070813, 2149348432, 922192054, 16124416, 1377070808, 3694071801]"
  unfolding m1_pad by (simp add: schedule_def be_word_def sha1_extend_numeral rotl_def)

lemma m1_s1: "foldl (sha1_round ch 0x5A827999) (0x67452301, 0xEFCDAB89, 0x98BADCFE, 0x10325476, 0xC3D2E1F0) (take 20 (schedule (sha1_pad [97, 124, 98]))) = (1366064964, 3310826190, 492519045, 1536884778, 1123274321)"
  unfolding m1_schedule by (simp add: ch_def rotl_def)

lemma m1_s2: "foldl (sha1_round parity 0x6ED9EBA1) (1366064964, 3310826190, 492519045, 1536884778, 1123274321) (take 20 (drop 20 (schedule (sha1_pad [97, 124, 98])))) = (2183996437, 81251536, 4051278077, 3503625097, 3757740499)"
  unfolding m1_schedule by (simp add: parity_def rotl_def)

lemma m1_s3: "foldl (sha1_round maj 0x8F1BBCDC) (2183996437, 81251536, 4051278077, 3503625097, 3757740499) (take 20 (drop 40 (schedule (sha1_pad [97, 124, 98])))) = (1505260031, 418084799, 270804326, 2662185072, 1511690337)"
  unfolding m1_schedule by (simp add: maj_def rotl_def)

lemma m1_s4: "foldl (sha1_round parity 0xCA62C1D6) (1505260031, 418084799, 270804326, 2662185072, 1511690337) (drop 60 (schedule (sha1_pad [97, 124, 98]))) = (863587041, 1522100187, 646335774, 535053375, 694024647)"
  unfolding m1_schedule by (simp add: parity_def rotl_def)

lemma m1_block: "sha1_block (0x67452301, 0xEFCDAB89, 0x98BADCFE, 0x10325476, 0xC3D2E1F0) (sha1_pad [97, 124, 98]) = (2596171234, 1250366308, 3208718876, 806787253, 3979402167)"
  by (simp add: sha1_block_def Let_def m1_s1 m1_s2 m1_s3 m1_s4)

lemma m1_digest: "sha1_hex [97, 124, 98] = u ''9abe6de24a871364bf412a1c301698b5ed30dbb7''"
  by (simp add: sha1_hex_def m1_block [unfolded m1_pad] m1_pad hex_word_def hex_digit_def u_def upt_conv_Cons)

lemma m2_pad: "sha1_pad [97, 98] = [97, 98, 128, 0, 0, 0, 0, 0, 0, 0, 0, 0, 0, 0, 0, 0, 0, 0, 0, 0, 0, 0, 0, 0, 0, 0, 0, 0, 0, 0, 0, 0, 0, 0, 0, 0, 0, 0, 0, 0, 0, 0, 0, 0, 0, 0, 0, 0, 0, 0, 0, 0, 0, 0, 0, 0, 0, 0, 0, 0, 0, 0, 0, 16]"
  by code_simp

lemma m2_schedule: "schedule (sha1_pad [97, 98]) = [1633845248, 0, 0, 0, 0, 0, 0, 0, 0, 0, 0, 0, 0, 0, 0, 16, 3267690496, 0, 32, 2240413697, 0, 64, 185860099, 32, 2240413825, 371720198, 0, 256, 743440396, 160, 2476868103, 1486880888, 2392719362, 1024, 2973761712, 371720838, 1317537822, 1652556001, 371720198, 4224, 3542614212, 2560, 975183993, 2315257797, 3807641643, 16512, 36178829, 1957177767, 3656155629, 671092246, 1652556513, 1317603486, 614992971, 41984, 323094435, 2684387032, 1640499872, 1652820193, 883472598, 1250069239, 1306533401, 2147544034, 67636841, 1653640929, 3041445020, 655360, 538997050, 1653065195, 4093651938, 4227072, 671845634, 2821301876, 3234983381, 925224, 3800228611, 3517485654, 2076986229, 10750976, 2445781826, 1660864449]"
  unfolding m2_pad by (simp add: schedule_def be_word_def sha1_extend_numeral rotl_def)

lemma m2_s1: "foldl (sha1_round ch 0x5A827999) (0x67452301, 0xEFCDAB89, 0x98BADCFE, 0x10325476, 0xC3D2E1F0) (take 20 (schedule (sha1_pad [97, 98]))) = (1595667942, 679847379, 2605113899, 2192394300, 2733326867)"
  unfolding m2_schedule by (simp add: ch_def rotl_def)

lemma m2_s2: "foldl (sha1_round parity 0x6ED9EBA1) (1595667942, 679847379, 2605113899, 2192394300, 2733326867) (take 20 (drop 20 (schedule (sha1_pad [97, 98])))) = (1365401364, 1913912124, 2082465087, 1770412067, 2177655220)"
  unfolding m2_schedule by (simp add: parity_def rotl_def)

lemma m2_s3: "foldl (sha1_round maj 0x8F1BBCDC) (1365401364, 1913912124, 2082465087, 1770412067, 2177655220) (take 20 (drop 40 (schedule (sha1_pad [97, 98])))) = (2595554872, 834664929, 1942390388, 2270638979, 665753532)"
  unfolding m2_schedule by (simp add: maj_def rotl_def)

lemma m2_s4: "foldl (sha1_round parity 0xCA62C1D6) (2595554872, 834664929, 1942390388, 2270638979, 665753532) (drop 60 (schedule (sha1_pad [97, 98]))) = (1927167565, 309915268, 3821073599, 2603239377, 2269520620)"
  unfolding m2_schedule by (simp add: parity_def rotl_def)

lemma m2_block: "sha1_block (0x67452301, 0xEFCDAB89, 0x98BADCFE, 0x10325476, 0xC3D2E1F0) (sha1_pad [97, 98]) = (3659751758, 38181389, 2088489405, 2874973255, 1259930844)"
  by (simp add: sha1_block_def Let_def m2_s1 m2_s2 m2_s3 m2_s4)

lemma m2_digest: "sha1_hex [97, 98] = u ''da23614e02469a0d7c7bd1bdab5c9c474b1904dc''"
  by (simp add: sha1_hex_def m2_block [unfolded m2_pad] m2_pad hex_word_def hex_digit_def u_def upt_conv_Cons)


text \<open>
  C5 (as amended). The identity of an entry is its id when that is present and not
  empty; else its link when that is present and not empty; else the SHA-1 digest, in
  hexadecimal, of the UTF-8 encoding of title, a vertical bar and summary (a missing
  one taken as empty), cut to 512 characters before it is hashed, which has 40
  characters. The identity is never empty. The function reads the entry only.
\<close>

theorem post_identity_precedence:
  "(present (entry_id e) \<longrightarrow> post_identity e = the (entry_id e)) \<and>
   (\<not> present (entry_id e) \<and> present (entry_link e) \<longrightarrow>
      post_identity e = the (entry_link e)) \<and>
   (\<not> present (entry_id e) \<and> \<not> present (entry_link e) \<longrightarrow>
      post_identity e =
        sha1_hex (utf8_encode
          (take 512 (or_empty (entry_title e) @ u ''|'' @ or_empty (entry_summary e)))) \<and>
      length (post_identity e) = 40) \<and>
   post_identity e \<noteq> []"
  using post_identity_nonempty [of e]
  by (simp add: post_identity_def identity_base_def length_sha1_hex)

theorem post_identity_precedence_witness:
  "\<not> present (entry_id hashed_entry) \<and> \<not> present (entry_link hashed_entry) \<and>
   post_identity hashed_entry = u ''9abe6de24a871364bf412a1c301698b5ed30dbb7'' \<and>
   present (entry_id (hashed_entry\<lparr>entry_id := Some (u ''abc123'')\<rparr>)) \<and>
   post_identity (hashed_entry\<lparr>entry_id := Some (u ''abc123'')\<rparr>) = u ''abc123'' \<and>
   post_identity (hashed_entry\<lparr>entry_link := Some (u ''http://x/1'')\<rparr>) = u ''http://x/1''"
proof -
  have "utf8_encode (take 512 (u ''a'' @ u ''|'' @ u ''b'')) = [97, 124, 98]"
    by (simp add: utf8_encode_def utf8_char_def u_def)
  then show ?thesis
    using post_identity_precedence [of hashed_entry]
      post_identity_precedence [of "hashed_entry\<lparr>entry_id := Some (u ''abc123'')\<rparr>"]
      post_identity_precedence [of "hashed_entry\<lparr>entry_link := Some (u ''http://x/1'')\<rparr>"]
    by (simp add: hashed_entry_def m1_digest) (simp add: u_def)
qed

text \<open>
  C5 as stated fails: for an entry with no id and no link, title \<open>a\<close> and summary
  \<open>b\<close>, the identity is the digest of \<open>a|b\<close>, not that of title and summary
  concatenated, \<open>ab\<close>.
\<close>

theorem post_identity_counterexample:
  "post_identity hashed_entry \<noteq>
     sha1_hex (utf8_encode
       (take 512 (or_empty (entry_title hashed_entry) @ or_empty (entry_summary hashed_entry))))"
proof -
  have a: "utf8_encode (identity_base hashed_entry) = [97, 124, 98]"
    by (simp add: identity_base_def hashed_entry_def utf8_encode_def utf8_char_def u_def)
  have b: "utf8_encode
      (take 512 (or_empty (entry_title hashed_entry) @ or_empty (entry_summary hashed_entry))) =
      [97, 98]"
    by (simp add: hashed_entry_def utf8_encode_def utf8_char_def u_def)
  have c: "post_identity hashed_entry = sha1_hex [97, 124, 98]"
    by (simp add: post_identity_def a) (simp add: hashed_entry_def)
  show ?thesis unfolding b c m1_digest m2_digest by (simp add: u_def)
qed

section \<open>Documents and their tags\<close>

lemma tag_scan_append:
  "tag_scan s (xs @ ys) = (case tag_scan s xs of None \<Rightarrow> None | Some t \<Rightarrow> tag_scan t ys)"
  by (induction s xs rule: tag_scan.induct) auto

lemma tag_scan_text: "60 \<notin> set xs \<Longrightarrow> tag_scan InText xs = Some InText"
  by (induction xs) auto

lemma tag_scan_value: "34 \<notin> set xs \<Longrightarrow> tag_scan InValue xs = Some InValue"
  by (induction xs) auto

lemma well_formed_append: "well_formed xs \<Longrightarrow> well_formed (xs @ ys) = well_formed ys"
  by (simp add: well_formed_def tag_scan_append)

lemma well_formed_source_part:
  "(\<forall>l. source_link = Some l \<longrightarrow> 34 \<notin> set l) \<Longrightarrow> well_formed (source_part source_link)"
proof (cases "present source_link")
  case False
  then show ?thesis by (simp add: source_part_def well_formed_def)
next
  case True
  assume a: "\<forall>l. source_link = Some l \<longrightarrow> 34 \<notin> set l"
  from True obtain l where l: "source_link = Some l" by (cases source_link) auto
  have "tag_scan InText (u ''<p><a href=\"'') = Some InValue" by (simp add: u_def)
  moreover have "tag_scan InValue l = Some InValue" using a l by (simp add: tag_scan_value)
  moreover have "tag_scan InValue (u ''\" rel=\"noopener noreferrer\">Source</a></p>'') = Some InText"
    by (simp add: u_def)
  ultimately show ?thesis using True l
    by (simp add: source_part_def well_formed_def tag_scan_append)
qed

lemma well_formed_literal:
  "well_formed (u ''<!doctype html>'' @ [10] @ u ''<html lang=\"en\">'' @ [10] @
     u ''<head>'' @ [10] @ u ''  <meta charset=\"utf-8\">'' @ [10] @
     u ''  <meta name=\"viewport\" content=\"width=device-width,initial-scale=1\">'' @ [10] @
     u ''  <title>'')"
  "well_formed (u ''</title>'' @ [10] @
     u ''  <link rel=\"stylesheet\" href=\"/styles.css\">'' @ [10] @
     u ''</head>'' @ [10] @ u ''<body>'' @ [10] @ u ''  <header>'' @ [10] @ u ''    <h1>'')"
  "well_formed (u ''</h1>'' @ [10] @ u ''    <p><small>Published: '')"
  "well_formed (u ''</small></p>'' @ [10] @ u ''  </header>'' @ [10] @ [10] @
     u ''  <main>'' @ [10] @ u ''    '')"
  "well_formed ([10] @ u ''    '')"
  "well_formed ([10] @ u ''  </main>'' @ [10] @ [10] @ u ''  <aside>'' @ [10] @ u ''    '')"
  "well_formed ([10] @ u ''  </aside>'' @ [10] @ [10] @
     u ''  <script src=\"/site.js\"></script>'' @ [10] @ u ''</body>'' @ [10] @
     u ''</html>'' @ [10])"
  by (simp_all add: well_formed_def u_def)

lemma well_formed_plain: "60 \<notin> set xs \<Longrightarrow> well_formed xs"
  by (simp add: well_formed_def tag_scan_text)

lemma well_formed_concat: "\<forall>x\<in>set xss. well_formed x \<Longrightarrow> well_formed (concat xss)"
  by (induction xss) (simp_all add: well_formed_def tag_scan_append)

lemma render_html_pieces:
  "render_html a title date_iso content_html source_link =
   concat
    [u ''<!doctype html>'' @ [10] @ u ''<html lang=\"en\">'' @ [10] @
     u ''<head>'' @ [10] @ u ''  <meta charset=\"utf-8\">'' @ [10] @
     u ''  <meta name=\"viewport\" content=\"width=device-width,initial-scale=1\">'' @ [10] @
     u ''  <title>'',
     title,
     u ''</title>'' @ [10] @
     u ''  <link rel=\"stylesheet\" href=\"/styles.css\">'' @ [10] @
     u ''</head>'' @ [10] @ u ''<body>'' @ [10] @ u ''  <header>'' @ [10] @ u ''    <h1>'',
     title,
     u ''</h1>'' @ [10] @ u ''    <p><small>Published: '',
     date_iso,
     u ''</small></p>'' @ [10] @ u ''  </header>'' @ [10] @ [10] @
     u ''  <main>'' @ [10] @ u ''    '',
     content_html,
     [10] @ u ''    '',
     source_part source_link,
     [10] @ u ''  </main>'' @ [10] @ [10] @ u ''  <aside>'' @ [10] @ u ''    '',
     read_ads a,
     [10] @ u ''  </aside>'' @ [10] @ [10] @
     u ''  <script src=\"/site.js\"></script>'' @ [10] @ u ''</body>'' @ [10] @
     u ''</html>'' @ [10]]"
  by (simp add: render_html_def)

lemma render_html_well_formed:
  assumes "60 \<notin> set title" and "60 \<notin> set date_iso"
    and "\<forall>l. source_link = Some l \<longrightarrow> 34 \<notin> set l"
    and "well_formed content_html" and "well_formed (read_ads a)"
  shows "well_formed (render_html a title date_iso content_html source_link)"
  unfolding render_html_pieces
  by (rule well_formed_concat)
     (use assms well_formed_literal well_formed_source_part well_formed_plain in auto)

text \<open>
  C9 (as amended). The renderer escapes nothing: title, date and source link stand in
  the document as they are given. The document is well formed, with no tag and no
  attribute value left open, when title and date hold no \<open><\<close> and the link holds no
  double quote (content and snippet being well formed themselves).
\<close>

theorem render_html_verbatim:
  "(\<exists>pre post. render_html a title date_iso content_html source_link =
      pre @ u ''<title>'' @ title @ u ''</title>'' @ post) \<and>
   (\<exists>pre post. render_html a title date_iso content_html source_link =
      pre @ u ''<h1>'' @ title @ u ''</h1>'' @ post) \<and>
   (\<exists>pre post. render_html a title date_iso content_html source_link =
      pre @ u ''Published: '' @ date_iso @ u ''</small>'' @ post) \<and>
   (\<forall>l. source_link = Some l \<and> l \<noteq> [] \<longrightarrow>
      (\<exists>pre post. render_html a title date_iso content_html source_link =
         pre @ u ''<a href=\"'' @ l @ u ''\" rel='' @ post)) \<and>
   (60 \<notin> set title \<and> 60 \<notin> set date_iso \<and> (\<forall>l. source_link = Some l \<longrightarrow> 34 \<notin> set l) \<and>
    well_formed content_html \<and> well_formed (read_ads a) \<longrightarrow>
      well_formed (render_html a title date_iso content_html source_link))"
proof (intro conjI allI impI)
  show "\<exists>pre post. render_html a title date_iso content_html source_link =
      pre @ u ''<title>'' @ title @ u ''</title>'' @ post"
    unfolding render_html_def
    by (rule exI [of _ "u ''<!doctype html>'' @ [10] @ u ''<html lang=\"en\">'' @ [10] @
     u ''<head>'' @ [10] @ u ''  <meta charset=\"utf-8\">'' @ [10] @
     u ''  <meta name=\"viewport\" content=\"width=device-width,initial-scale=1\">'' @ [10] @
     u ''  ''"], rule exI) (simp add: u_def)
  show "\<exists>pre post. render_html a title date_iso content_html source_link =
      pre @ u ''<h1>'' @ title @ u ''</h1>'' @ post"
    unfolding render_html_def
    by (rule exI [of _ "u ''<!doctype html>'' @ [10] @ u ''<html lang=\"en\">'' @ [10] @
     u ''<head>'' @ [10] @ u ''  <meta charset=\"utf-8\">'' @ [10] @
     u ''  <meta name=\"viewport\" content=\"width=device-width,initial-scale=1\">'' @ [10] @
     u ''  <title>'' @ title @ u ''</title>'' @ [10] @
     u ''  <link rel=\"stylesheet\" href=\"/styles.css\">'' @ [10] @
     u ''</head>'' @ [10] @ u ''<body>'' @ [10] @ u ''  <header>'' @ [10] @ u ''    ''"], rule exI)
       (simp add: u_def)
  show "\<exists>pre post. render_html a title date_iso content_html source_link =
      pre @ u ''Published: '' @ date_iso @ u ''</small>'' @ post"
    unfolding render_html_def
    by (rule exI [of _ "u ''<!doctype html>'' @ [10] @ u ''<html lang=\"en\">'' @ [10] @
     u ''<head>'' @ [10] @ u ''  <meta charset=\"utf-8\">'' @ [10] @
     u ''  <meta name=\"viewport\" content=\"width=device-width,initial-scale=1\">'' @ [10] @
     u ''  <title>'' @ title @ u ''</title>'' @ [10] @
     u ''  <link rel=\"stylesheet\" href=\"/styles.css\">'' @ [10] @
     u ''</head>'' @ [10] @ u ''<body>'' @ [10] @ u ''  <header>'' @ [10] @
     u ''    <h1>'' @ title @ u ''</h1>'' @ [10] @ u ''    <p><small>''"], rule exI)
       (simp add: u_def)
next
  fix l
  assume "source_link = Some l \<and> l \<noteq> []"
  then have s: "source_part source_link =
      u ''<p>'' @ u ''<a href=\"'' @ l @ u ''\" rel='' @ u ''\"noopener noreferrer\">Source</a></p>''"
    by (simp add: source_part_def u_def)
  show "\<exists>pre post. render_html a title date_iso content_html source_link =
         pre @ u ''<a href=\"'' @ l @ u ''\" rel='' @ post"
    unfolding render_html_def s
    by (rule exI [of _ "u ''<!doctype html>'' @ [10] @ u ''<html lang=\"en\">'' @ [10] @
     u ''<head>'' @ [10] @ u ''  <meta charset=\"utf-8\">'' @ [10] @
     u ''  <meta name=\"viewport\" content=\"width=device-width,initial-scale=1\">'' @ [10] @
     u ''  <title>'' @ title @ u ''</title>'' @ [10] @
     u ''  <link rel=\"stylesheet\" href=\"/styles.css\">'' @ [10] @
     u ''</head>'' @ [10] @ u ''<body>'' @ [10] @ u ''  <header>'' @ [10] @
     u ''    <h1>'' @ title @ u ''</h1>'' @ [10] @
     u ''    <p><small>Published: '' @ date_iso @ u ''</small></p>'' @ [10] @
     u ''  </header>'' @ [10] @ [10] @ u ''  <main>'' @ [10] @
     u ''    '' @ content_html @ [10] @ u ''    '' @ u ''<p>''"], rule exI) simp
next
  assume "60 \<notin> set title \<and> 60 \<notin> set date_iso \<and> (\<forall>l. source_link = Some l \<longrightarrow> 34 \<notin> set l) \<and>
    well_formed content_html \<and> well_formed (read_ads a)"
  then show "well_formed (render_html a title date_iso content_html source_link)"
    by (intro render_html_well_formed) auto
qed

text \<open>
  C9 as stated fails: the title \<open><\<close> stands unescaped in the document and opens a tag
  inside which the \<open><\<close> of \<open></title>\<close> follows.
\<close>

theorem render_html_counterexample:
  "\<not> well_formed (render_html NoAds (u ''<'') (u ''2024-01-02T00:00:00+00:00'') [] None) \<and>
   well_formed (render_html NoAds (u ''&lt;'') (u ''2024-01-02T00:00:00+00:00'') [] None)"
  by (simp add: render_html_def well_formed_def source_part_def u_def)

theorem render_html_verbatim_witness:
  "(\<exists>pre post. render_html NoAds (u ''Hello World'') (u ''2024-01-02T00:00:00+00:00'')
        (u ''<p>Hi</p>'') (Some (u ''http://x/1'')) =
      pre @ u ''<title>'' @ u ''Hello World'' @ u ''</title>'' @ post) \<and>
   (\<exists>pre post. render_html NoAds (u ''Hello World'') (u ''2024-01-02T00:00:00+00:00'')
        (u ''<p>Hi</p>'') (Some (u ''http://x/1'')) =
      pre @ u ''<a href=\"'' @ u ''http://x/1'' @ u ''\" rel='' @ post) \<and>
   well_formed (render_html NoAds (u ''Hello World'') (u ''2024-01-02T00:00:00+00:00'')
        (u ''<p>Hi</p>'') (Some (u ''http://x/1'')))"
proof -
  have "60 \<notin> set (u ''Hello World'')" "60 \<notin> set (u ''2024-01-02T00:00:00+00:00'')"
    "34 \<notin> set (u ''http://x/1'')" "well_formed (u ''<p>Hi</p>'')" "well_formed (read_ads NoAds)"
    "u ''http://x/1'' \<noteq> []"
    by (simp_all add: u_def well_formed_def)
  then show ?thesis
    using render_html_verbatim [of NoAds "u ''Hello World''" "u ''2024-01-02T00:00:00+00:00''"
        "u ''<p>Hi</p>''" "Some (u ''http://x/1'')"]
    by simp
qed

section \<open>Sorting\<close>

lemma saves_append: "saves (xs @ ys) = saves xs @ saves ys"
  by (induction xs rule: saves.induct) auto

lemma collect_Inr_iff:
  "collect rs = Inr vs \<longleftrightarrow> rs = map Inr vs"
proof (induction rs arbitrary: vs)
  case Nil
  then show ?case by auto
next
  case (Cons r rs)
  show ?case
  proof (cases r)
    case (Inl e)
    then show ?thesis by auto
  next
    case (Inr v)
    then show ?thesis using Cons [of "tl vs"] by (cases vs) (auto split: sum.splits)
  qed
qed

lemma date_key_str: "date_key p = Inr (JStr s) \<Longrightarrow> date_str p = s"
  by (cases p) auto

lemma date_key_Inr: "date_key p = Inr k \<Longrightarrow> is_dict p"
  by (cases p) auto

lemma date_key_dict: "is_dict p \<Longrightarrow> \<exists>k. date_key p = Inr k"
  by (cases p) auto

lemma desc_sort_short: "length ps \<le> 1 \<Longrightarrow> rev (sort_key f (rev ps)) = ps"
  by (cases ps) (auto simp: le_Suc_eq)

lemma collect_date_key:
  "(\<exists>keys. collect (map date_key ps) = Inr keys) \<longleftrightarrow> (\<forall>p\<in>set ps. is_dict p)"
proof (induction ps)
  case Nil
  then show ?case by simp
next
  case (Cons p ps)
  then show ?case by (cases p) (auto split: sum.splits)
qed

lemma collect_date_key_set:
  "collect (map date_key ps) = Inr keys \<Longrightarrow> set keys = {k. \<exists>p\<in>set ps. date_key p = Inr k}"
proof (induction ps arbitrary: keys)
  case Nil
  then show ?case by simp
next
  case (Cons p ps)
  then show ?case by (cases p) (auto split: sum.splits)
qed

lemma is_str_iff: "is_str k \<longleftrightarrow> (\<exists>s. k = JStr s)"
  by (cases k) auto

lemma sort_posts_sortable:
  assumes "sortable ps"
  shows "sort_posts other ps = Inr (rev (sort_key date_str (rev ps)))"
proof -
  from assms have d: "\<forall>p\<in>set ps. is_dict p" by (simp add: sortable_def)
  then obtain keys where k: "collect (map date_key ps) = Inr keys"
    using collect_date_key [of ps] by auto
  show ?thesis
  proof (cases "length ps \<le> 1")
    case True
    then show ?thesis using k by (simp add: sort_posts_def desc_sort_short)
  next
    case False
    then have a: "\<forall>p\<in>set ps. date_key p = Inr (JStr (date_str p))"
      using assms by (simp add: sortable_def)
    have "\<forall>k\<in>set keys. is_str k"
      using collect_date_key_set [OF k] a by auto
    then show ?thesis using False k by (simp add: sort_posts_def)
  qed
qed

lemma dated_sortable: "\<forall>p\<in>set ps. dated p \<Longrightarrow> sortable ps"
  using date_key_Inr by (auto simp: sortable_def dated_def)



lemma desc_sort_mset: "mset (rev (sort_key f (rev xs))) = mset xs"
  by simp

lemma desc_sort_idem:
  "rev (sort_key f (rev (rev (sort_key f (rev xs))))) = rev (sort_key f (rev xs))"
  by (simp add: sort_key_id_if_sorted)

lemma sortable_mset: "mset ps = mset qs \<Longrightarrow> sortable ps = sortable qs"
proof -
  assume m: "mset ps = mset qs"
  then have "set ps = set qs" by (rule mset_eq_setD)
  moreover have "length ps = length qs" using m by (rule mset_eq_length)
  ultimately show ?thesis by (simp add: sortable_def)
qed

lemma sort_posts_idem:
  assumes "sortable ps"
  shows "sort_posts other (rev (sort_key date_str (rev ps))) = Inr (rev (sort_key date_str (rev ps)))"
proof -
  have "sortable (rev (sort_key date_str (rev ps)))"
    using assms sortable_mset [of "rev (sort_key date_str (rev ps))" ps] by simp
  then show ?thesis by (simp add: sort_posts_sortable sort_key_id_if_sorted)
qed



section \<open>The loop of a run\<close>

lemma grows_refl: "grows st st"
  unfolding grows_def by (intro exI [of _ "[]"]) simp

lemma grows_trans:
  assumes "grows a b" and "grows b c"
  shows "grows a c"
proof -
  from assms(1) obtain n1 e1 where 1:
    "posts b = posts a @ n1"
    "\<forall>p\<in>set n1. usable_post p \<and> (\<exists>s. s \<noteq> [] \<and> post_id p = JStr s)"
    "distinct (map post_id n1)" "post_id ` set n1 \<inter> known_ids a = {}"
    "known_ids b = known_ids a \<union> post_id ` set n1"
    "added_count b = added_count a + length n1"
    "manifest_file (wld b) = manifest_file (wld a)" "ads (wld b) = ads (wld a)"
    "trace (wld b) = trace (wld a) @ e1" "saves e1 = []"
    unfolding grows_def by blast
  from assms(2) obtain n2 e2 where 2:
    "posts c = posts b @ n2"
    "\<forall>p\<in>set n2. usable_post p \<and> (\<exists>s. s \<noteq> [] \<and> post_id p = JStr s)"
    "distinct (map post_id n2)" "post_id ` set n2 \<inter> known_ids b = {}"
    "known_ids c = known_ids b \<union> post_id ` set n2"
    "added_count c = added_count b + length n2"
    "manifest_file (wld c) = manifest_file (wld b)" "ads (wld c) = ads (wld b)"
    "trace (wld c) = trace (wld b) @ e2" "saves e2 = []"
    unfolding grows_def by blast
  have d: "distinct (map post_id (n1 @ n2))"
    using 1(3) 2(3) 2(4) 1(5) by auto
  have k: "post_id ` set (n1 @ n2) \<inter> known_ids a = {}"
    using 1(4) 2(4) 1(5) by auto
  show ?thesis
    unfolding grows_def
  proof (intro exI [of _ "n1 @ n2"] exI [of _ "e1 @ e2"] conjI)
    show "posts c = posts a @ n1 @ n2" using 1(1) 2(1) by simp
    show "\<forall>p\<in>set (n1 @ n2). usable_post p \<and> (\<exists>s. s \<noteq> [] \<and> post_id p = JStr s)"
      using 1(2) 2(2) by auto
    show "distinct (map post_id (n1 @ n2))" by (rule d)
    show "post_id ` set (n1 @ n2) \<inter> known_ids a = {}" by (rule k)
    show "known_ids c = known_ids a \<union> post_id ` set (n1 @ n2)" using 1(5) 2(5) by auto
    show "added_count c = added_count a + length (n1 @ n2)" using 1(6) 2(6) by simp
    show "manifest_file (wld c) = manifest_file (wld a)" using 1(7) 2(7) by simp
    show "ads (wld c) = ads (wld a)" using 1(8) 2(8) by simp
    show "trace (wld c) = trace (wld a) @ e1 @ e2" using 1(9) 2(9) by simp
    show "saves (e1 @ e2) = []" using 1(10) 2(10) by (simp add: saves_append)
  qed
qed

lemma grows_print:
  assumes "posts st' = posts st" "known_ids st' = known_ids st"
    "added_count st' = added_count st" "wld st' = emit ev (wld st)"
    and "\<And>m. ev \<noteq> SaveManifest m"
  shows "grows st st'"
proof -
  have "saves [ev] = []" using assms(5) by (cases ev) auto
  then show ?thesis
    unfolding grows_def using assms(1-4)
    by (intro exI [of _ "[]"] exI [of _ "[ev]"]) (simp add: emit_def)
qed

lemma pick_datetime_world:
  "pick_datetime ev e w = (dt, w') \<Longrightarrow>
     manifest_file w' = manifest_file w \<and> ads w' = ads w \<and> trace w' = trace w \<and>
     post_files w' = post_files w"
  by (auto simp: pick_datetime_def split: option.splits)

lemma perform_Inr: "perform ev w = Inr w' \<longleftrightarrow> \<not> failing w ev \<and> w' = emit ev w"
  by (auto simp: perform_def)

lemma write_post_file_world:
  "write_post_file ev dt title c l w = Inr (fn, w') \<Longrightarrow>
     manifest_file w' = manifest_file w \<and> ads w' = ads w \<and>
     trace w' = trace w @ [WritePost fn]"
  by (auto simp: write_post_file_def Let_def emit_def perform_def split: if_splits)

lemma post_record_usable: "usable_post (post_record pid title fn dat l c)"
  by (simp add: usable_post_def post_record_def dict_get_def u_def)

lemma post_record_id: "post_id (post_record pid title fn dat l c) = JStr pid"
  by (simp add: post_record_def dict_get_def u_def)

lemma process_entry_known:
  "JStr (post_identity e) \<in> known_ids st \<Longrightarrow> process_entry ev st e = Inr st"
  by (simp add: process_entry_def)

lemma process_entry_new:
  assumes "JStr (post_identity e) \<notin> known_ids st" and "process_entry ev st e = Inr st'"
  shows "\<exists>r w'. st' =
      \<lparr>posts = posts st @ [r], known_ids = insert (JStr (post_identity e)) (known_ids st),
       added_count = added_count st + 1, wld = w'\<rparr> \<and>
      usable_post r \<and> post_id r = JStr (post_identity e) \<and>
      manifest_file w' = manifest_file (wld st) \<and> ads w' = ads (wld st) \<and>
      (\<exists>fn. trace w' = trace (wld st) @ [WritePost fn, PrintWrote fn])"
proof -
  obtain dt w1 where p: "pick_datetime ev e (wld st) = (dt, w1)"
    by (cases "pick_datetime ev e (wld st)")
  from assms obtain fn w2 where
    f: "write_post_file ev dt (title_of e) (content_of e) (entry_link e) w1 = Inr (fn, w2)"
    and st': "st' =
      \<lparr>posts = posts st @ [post_record (post_identity e) (title_of e) fn (isoformat ev dt)
          (entry_link e) (content_of e)],
       known_ids = insert (JStr (post_identity e)) (known_ids st),
       added_count = added_count st + 1, wld = emit (PrintWrote fn) w2\<rparr>"
    by (auto simp: process_entry_def Let_def p split: sum.splits)
  have "manifest_file (emit (PrintWrote fn) w2) = manifest_file (wld st)"
    "ads (emit (PrintWrote fn) w2) = ads (wld st)"
    "trace (emit (PrintWrote fn) w2) = trace (wld st) @ [WritePost fn, PrintWrote fn]"
    using pick_datetime_world [OF p] write_post_file_world [OF f] by (simp_all add: emit_def)
  then show ?thesis
    using st' post_record_usable post_record_id by blast
qed

lemma process_entry_grows:
  assumes "process_entry ev st e = Inr st'"
  shows "grows st st'"
proof (cases "JStr (post_identity e) \<in> known_ids st")
  case True
  then show ?thesis using assms by (simp add: process_entry_known grows_refl)
next
  case False
  from process_entry_new [OF False assms] obtain r w' fn where
    r: "st' =
      \<lparr>posts = posts st @ [r], known_ids = insert (JStr (post_identity e)) (known_ids st),
       added_count = added_count st + 1, wld = w'\<rparr>"
    "usable_post r" "post_id r = JStr (post_identity e)"
    "manifest_file w' = manifest_file (wld st)" "ads w' = ads (wld st)"
    "trace w' = trace (wld st) @ [WritePost fn, PrintWrote fn]"
    by blast
  show ?thesis
    unfolding grows_def r(1)
    by (intro exI [of _ "[r]"] exI [of _ "[WritePost fn, PrintWrote fn]"])
       (use r(2-6) False post_identity_nonempty [of e] in auto)
qed

lemma for_loop_grows:
  assumes "\<And>st x st'. f st x = Inr st' \<Longrightarrow> grows st st'"
  shows "for_loop f st xs = Inr st' \<Longrightarrow> grows st st'"
proof (induction xs arbitrary: st)
  case Nil
  then show ?case by (simp add: grows_refl)
next
  case (Cons x xs)
  from Cons.prems obtain st1 where 1: "f st x = Inr st1" and 2: "for_loop f st1 xs = Inr st'"
    by (auto split: sum.splits)
  show ?case using grows_trans [OF assms [OF 1] Cons.IH [OF 2]] .
qed

lemma process_feed_grows:
  assumes "process_feed ev st url = Inr st'"
  shows "grows st st'"
proof -
  define st1 where "st1 = st\<lparr>wld := emit (PrintFetching url) (wld st)\<rparr>"
  define st2 where
    "st2 = (if bozo (fetch ev url) then st1\<lparr>wld := emit PrintWarning (wld st1)\<rparr> else st1)"
  have 1: "grows st st1" unfolding st1_def by (rule grows_print [of _ _ "PrintFetching url"]) simp_all
  have "grows st1 (st1\<lparr>wld := emit PrintWarning (wld st1)\<rparr>)"
    by (rule grows_print [of _ _ PrintWarning]) simp_all
  then have "grows st1 st2" unfolding st2_def by (simp add: grows_refl)
  then have 2: "grows st st2" using 1 grows_trans by blast
  have "grows st2 (st2\<lparr>wld := emit PrintNoEntries (wld st2)\<rparr>)"
    by (rule grows_print [of _ _ PrintNoEntries]) simp_all
  then have 3: "grows st (st2\<lparr>wld := emit PrintNoEntries (wld st2)\<rparr>)"
    using 2 grows_trans by blast
  have "grows st2 s" if "for_loop (process_entry ev) st2 es = Inr s" for es s
    using that by (rule for_loop_grows [rotated]) (rule process_entry_grows)
  then have 4: "grows st s" if "for_loop (process_entry ev) st2 es = Inr s" for es s
    using that 2 grows_trans by blast
  have "process_feed ev st url =
      (if entries (fetch ev url) = [] then Inr (st2\<lparr>wld := emit PrintNoEntries (wld st2)\<rparr>)
       else for_loop (process_entry ev) st2
              (py_prefix (items_per_feed ev) (entries (fetch ev url))))"
    by (simp add: process_feed_def Let_def st1_def st2_def)
  then show ?thesis using assms 3 4 by (auto split: if_splits)
qed

lemma feeds_grow:
  assumes "for_loop (process_feed ev) st feeds = Inr st'"
  shows "grows st st'"
  using assms by (rule for_loop_grows [rotated]) (rule process_feed_grows)

section \<open>A run\<close>

lemma known_ids_of_Inr_iff:
  "known_ids_of ps = Inr K \<longleftrightarrow>
     (\<forall>p\<in>set ps. is_dict p \<and> (truthy (post_id p) \<longrightarrow> hashable (post_id p))) \<and>
     K = post_id ` set (filter (\<lambda>p. truthy (post_id p)) ps)"
proof (induction ps arbitrary: K)
  case Nil
  then show ?case by auto
next
  case (Cons q ps)
  show ?case
  proof (cases q)
    case (JDict p)
    show ?thesis
    proof (cases "known_ids_of ps")
      case (Inl e)
      then show ?thesis using Cons [of "{}"] Cons JDict by (auto simp: Let_def)
    next
      case (Inr ks)
      then have "(\<forall>p\<in>set ps. is_dict p \<and> (truthy (post_id p) \<longrightarrow> hashable (post_id p))) \<and>
          ks = post_id ` set (filter (\<lambda>p. truthy (post_id p)) ps)"
        using Cons [of ks] by simp
      then show ?thesis using Inr JDict by (auto simp: Let_def)
    qed
  qed auto
qed

lemma saved_twice: "saved (AList.update (u ''posts'') (JList qs) d) ps = saved d ps"
  by (simp add: saved_def AList.update_last)

lemma posts_of_saved: "posts_of (saved d ps) = ps"
  by (simp add: saved_def update_conv')

lemma save_manifest_Inr:
  assumes "save_manifest other (AList.update (u ''posts'') (JList ps) d) w = Inr w'"
  shows "\<exists>ps'. sort_posts other ps = Inr ps' \<and>
        w' = emit (SaveManifest (saved d ps')) (w\<lparr>manifest_file := Stored (saved d ps')\<rparr>)"
  using assms
  by (auto simp: save_manifest_def update_conv' Let_def saved_def AList.update_last
      perform_def emit_def split: sum.splits if_splits)

lemma main_Inr:
  assumes "main ev w = Inr w'"
  shows "\<exists>d ps K. load_manifest (manifest_file w) = Inr (JDict d) \<and>
        map_of d (u ''posts'') = Some (JList ps) \<and> known_ids_of ps = Inr K \<and>
        (if resolve_feeds ev = [] then w' = emit PrintNoFeeds (emit EnsureDirs w)
         else \<exists>st ps'.
            for_loop (process_feed ev) (start w ps K) (resolve_feeds ev) = Inr st \<and>
            sort_posts (sort_other ev) (posts st) = Inr ps' \<and>
            w' = emit (PrintTotal (length (posts st))) (emit (PrintDone (added_count st))
                  (emit (SaveManifest (saved d ps'))
                    ((wld st)\<lparr>manifest_file := Stored (saved d ps')\<rparr>))))"
proof -
  from assms have p: "perform EnsureDirs w = Inr (emit EnsureDirs w)"
    by (auto simp: main_def perform_def split: if_splits)
  have m: "manifest_file (emit EnsureDirs w) = manifest_file w" by (simp add: emit_def)
  from assms obtain d where l: "load_manifest (manifest_file w) = Inr (JDict d)"
    by (auto simp: main_def p m split: sum.splits json.splits)
  from assms obtain ps where ps: "map_of d (u ''posts'') = Some (JList ps)"
    by (auto simp: main_def p m l split: option.splits json.splits)
  from assms obtain K where k: "known_ids_of ps = Inr K"
    by (auto simp: main_def p m l ps split: sum.splits)
  have r: "main ev w =
      (if resolve_feeds ev = [] then Inr (emit PrintNoFeeds (emit EnsureDirs w))
       else case for_loop (process_feed ev) (start w ps K) (resolve_feeds ev) of
              Inl e \<Rightarrow> Inl e
            | Inr st \<Rightarrow>
                (case save_manifest (sort_other ev)
                        (AList.update (u ''posts'') (JList (posts st)) d) (wld st) of
                   Inl e \<Rightarrow> Inl e
                 | Inr w1 \<Rightarrow>
                     Inr (emit (PrintTotal (length (posts st)))
                           (emit (PrintDone (added_count st)) w1))))"
    by (simp add: main_def p m l ps k Let_def start_def)
  show ?thesis
  proof (cases "resolve_feeds ev = []")
    case True
    then show ?thesis using assms l ps k by (simp add: r)
  next
    case False
    from assms False obtain st w1 where
      st: "for_loop (process_feed ev) (start w ps K) (resolve_feeds ev) = Inr st"
      and s: "save_manifest (sort_other ev)
          (AList.update (u ''posts'') (JList (posts st)) d) (wld st) = Inr w1"
      and w': "w' = emit (PrintTotal (length (posts st))) (emit (PrintDone (added_count st)) w1)"
      unfolding r by (auto split: sum.splits)
    from save_manifest_Inr [OF s] obtain ps' where
      "sort_posts (sort_other ev) (posts st) = Inr ps'"
      "w1 = emit (SaveManifest (saved d ps')) ((wld st)\<lparr>manifest_file := Stored (saved d ps')\<rparr>)"
      by blast
    then show ?thesis using False l ps k st w' by auto
  qed
qed

lemma main_run:
  assumes "main ev w = Inr w'" and "resolve_feeds ev \<noteq> []"
  obtains d ps K st ps' where
    "load_manifest (manifest_file w) = Inr (JDict d)"
    "map_of d (u ''posts'') = Some (JList ps)"
    "known_ids_of ps = Inr K"
    "for_loop (process_feed ev) (start w ps K) (resolve_feeds ev) = Inr st"
    "sort_posts (sort_other ev) (posts st) = Inr ps'"
    "w' = emit (PrintTotal (length (posts st))) (emit (PrintDone (added_count st))
           (emit (SaveManifest (saved d ps')) ((wld st)\<lparr>manifest_file := Stored (saved d ps')\<rparr>)))"
  using main_Inr [OF assms(1)] assms(2) by auto

lemma main_stop:
  assumes "main ev w = Inr w'" and "resolve_feeds ev = []"
  shows "w' = emit PrintNoFeeds (emit EnsureDirs w)"
  using main_Inr [OF assms(1)] assms(2) by auto

section \<open>The sample run\<close>

lemma feeds_sample: "resolve_feeds sample_env = [u ''f'']"
  by (simp add: resolve_feeds_def ENV_FEEDS_def sample_env_def u_def py_strip_def
      py_lstrip_def py_rstrip_def is_space_def)

lemma identity_sample: "post_identity sample_entry = u ''abc123''"
  by (simp add: post_identity_def sample_entry_def u_def)

lemma summary_sample: "summarize_text (u ''<p>Hi</p>'') 280 = u ''Hi''"
  by (simp add: summarize_text_def plain_text_def u_def after_tag_def py_strip_def
      py_lstrip_def py_rstrip_def is_space_def)

lemma slug_sample: "slugify ascii_lower (u ''Hello World'') = u ''hello-world''"
  by (simp add: slugify_def ascii_lower_def u_def py_strip_def
      py_lstrip_def py_rstrip_def is_space_def slug_invalid_def Let_def)

lemma load_fresh: "load_manifest Absent = Inr empty_manifest"
  by (simp add: load_manifest_def)

lemma entry_sample:
  "JStr (u ''abc123'') \<notin> known_ids st \<Longrightarrow> ads (wld st) = NoAds \<Longrightarrow>
   \<not> failing (wld st) (WritePost (u ''2024-01-02-hello-world.html'')) \<Longrightarrow>
   process_entry sample_env st sample_entry =
     Inr \<lparr>posts = posts st @ [sample_post],
      known_ids = insert (JStr (u ''abc123'')) (known_ids st),
      added_count = added_count st + 1,
      wld = (wld st)
        \<lparr>post_files := AList.update (u ''2024-01-02-hello-world.html'') sample_document
           (post_files (wld st)),
         trace := trace (wld st) @
           [WritePost (u ''2024-01-02-hello-world.html''),
            PrintWrote (u ''2024-01-02-hello-world.html'')],
         clock := Suc (clock (wld st))\<rparr>\<rparr>"
proof -
  have t: "title_of sample_entry = u ''Hello World''"
    by (simp add: title_of_def sample_entry_def u_def py_strip_def py_lstrip_def py_rstrip_def
        is_space_def)
  have c: "content_of sample_entry = u ''<p>Hi</p>''"
    by (simp add: content_of_def sample_entry_def u_def)
  have p: "pick_datetime sample_env sample_entry w = (Datetime 0, w\<lparr>clock := Suc (clock w)\<rparr>)"
    for w
    by (simp add: pick_datetime_def convert_def sample_entry_def sample_env_def)
  have l: "entry_link sample_entry = Some (u ''http://x/1'')"
    by (simp add: sample_entry_def)
  have f: "u ''2024-01-02'' @ u ''-'' @ u ''hello-world'' @ u ''.html'' =
      u ''2024-01-02-hello-world.html''"
    by (simp add: u_def)
  have g: "u ''posts/'' @ u ''2024-01-02-hello-world.html'' =
      u ''posts/2024-01-02-hello-world.html''"
    by (simp add: u_def)
  have e: "strftime_ymd sample_env d = u ''2024-01-02''"
    "isoformat sample_env d = u ''2024-01-02T00:00:00+00:00''"
    "str_lower sample_env = ascii_lower" for d
    by (simp_all add: sample_env_def)
  have n: "u ''http://x/1'' \<noteq> []" by (simp add: u_def)
  assume "JStr (u ''abc123'') \<notin> known_ids st" and "ads (wld st) = NoAds"
    and "\<not> failing (wld st) (WritePost (u ''2024-01-02-hello-world.html''))"
  then show ?thesis
    by (simp add: process_entry_def identity_sample t c p l e f g n write_post_file_def
        slug_sample summary_sample post_record_def sample_post_def sample_document_def
        perform_def emit_def Let_def)
qed

lemma for_loop_single: "for_loop body st [x] = body st x"
  by (cases "body st x") simp_all

lemma feed_sample:
  "process_feed sample_env st url =
     process_entry sample_env (st\<lparr>wld := emit (PrintFetching url) (wld st)\<rparr>) sample_entry"
proof -
  have "fetch sample_env url = \<lparr>bozo = False, entries = [sample_entry]\<rparr>"
    "items_per_feed sample_env = 20"
    by (simp_all add: sample_env_def)
  then show ?thesis
    by (simp add: process_feed_def py_prefix_def Let_def for_loop_single del: for_loop.simps)
qed

lemma main_sample: "main sample_env fresh_world = Inr world_after"
proof -
  have s: "sort_posts other [sample_post] = Inr [sample_post]" for other
    by (simp add: sort_posts_def sample_post_def)
  have m: "map_of [(u ''posts'', JList [])] (u ''posts'') = Some (JList [])" by simp
  show ?thesis
    by (simp add: main_def fresh_world_def perform_def emit_def load_fresh empty_manifest_def
        feeds_sample feed_sample entry_sample save_manifest_def s Let_def
        world_after_def sample_manifest_def)
qed

lemma main_sample_second: "main sample_env world_after = Inr world_after_second"
proof -
  have s: "sort_posts other [sample_post] = Inr [sample_post]" for other
    by (simp add: sort_posts_def sample_post_def)
  have l: "load_manifest (Stored (JDict [(u ''posts'', JList [sample_post])])) =
      Inr (JDict [(u ''posts'', JList [sample_post])])"
    by (simp add: load_manifest_def load_try_def)
  have k: "known_ids_of [sample_post] = Inr {JStr (u ''abc123'')}"
    by (simp add: sample_post_def dict_get_def u_def)
  show ?thesis
    by (simp add: main_def world_after_def world_after_second_def perform_def emit_def l
        sample_manifest_def k feeds_sample feed_sample process_entry_known identity_sample
        save_manifest_def s Let_def)
qed

lemma feeds_quiet: "resolve_feeds quiet_env = [u ''f'']"
  by (simp add: resolve_feeds_def ENV_FEEDS_def quiet_env_def sample_env_def u_def py_strip_def
      py_lstrip_def py_rstrip_def is_space_def)

lemma feed_quiet:
  "process_feed quiet_env st url =
     Inr (st\<lparr>wld := (wld st)\<lparr>trace := trace (wld st) @ [PrintFetching url, PrintNoEntries]\<rparr>\<rparr>)"
  by (simp add: process_feed_def quiet_env_def sample_env_def emit_def Let_def)

lemma post_at_simps:
  "date_str (post_at i d) = d" "date_key (post_at i d) = Inr (JStr d)"
  "post_id (post_at i d) = JStr i"
  by (simp_all add: post_at_def dict_get_def u_def)

lemma sort_unsorted: "sort_posts other unsorted_posts = Inr sorted_posts"
proof -
  have l: "u ''2024-01-01'' \<le> u ''2024-01-03''" "\<not> u ''2024-01-03'' \<le> u ''2024-01-01''"
    by (simp_all add: u_def)
  show ?thesis
    by (simp add: sort_posts_def unsorted_posts_def sorted_posts_def post_at_simps l)
qed

lemma site_manifest_simps:
  "map_of (site_manifest ps) (u ''posts'') = Some (JList ps)"
  "AList.update (u ''posts'') (JList ps') (site_manifest ps) = site_manifest ps'"
  by (simp_all add: site_manifest_def u_def)

lemma main_site: "main quiet_env site_world = Inr site_world_after"
proof -
  have l: "load_manifest (Stored (JDict (site_manifest unsorted_posts))) =
      Inr (JDict (site_manifest unsorted_posts))"
    by (simp add: load_manifest_def load_try_def site_manifest_simps)
  have "\<exists>K. known_ids_of unsorted_posts = Inr K"
    by (simp add: unsorted_posts_def post_at_def dict_get_def u_def)
  then obtain K where k: "known_ids_of unsorted_posts = Inr K" by blast
  have n: "length unsorted_posts = 3" by (simp add: unsorted_posts_def)
  show ?thesis
    by (simp add: main_def site_world_def site_world_after_def fresh_world_def perform_def
        emit_def l k n
        site_manifest_simps feeds_quiet feed_quiet save_manifest_def sort_unsorted Let_def)
qed

section \<open>Entries that are known\<close>

lemma idle_refl: "idle st st"
  by (auto simp: idle_def intro: exI [of _ "[]"])

lemma writes_append: "writes (xs @ ys) = writes xs @ writes ys"
  by (induction xs rule: writes.induct) auto

lemma idle_trans:
  assumes "idle a b" and "idle b c"
  shows "idle a c"
proof -
  from assms(1) obtain e1 where 1: "b = a\<lparr>wld := (wld a)\<lparr>trace := trace (wld a) @ e1\<rparr>\<rparr>"
    "writes e1 = []" by (auto simp: idle_def)
  from assms(2) obtain e2 where 2: "c = b\<lparr>wld := (wld b)\<lparr>trace := trace (wld b) @ e2\<rparr>\<rparr>"
    "writes e2 = []" by (auto simp: idle_def)
  have "c = a\<lparr>wld := (wld a)\<lparr>trace := trace (wld a) @ (e1 @ e2)\<rparr>\<rparr>"
    by (simp add: 1 2)
  moreover have "writes (e1 @ e2) = []" by (simp add: writes_append 1 2)
  ultimately show ?thesis unfolding idle_def by blast
qed

lemma idle_print:
  assumes "writes [ev] = []"
  shows "idle st (st\<lparr>wld := emit ev (wld st)\<rparr>)"
  unfolding idle_def using assms by (intro exI [of _ "[ev]"]) (simp add: emit_def)

lemma idle_known: "idle st st' \<Longrightarrow> known_ids st' = known_ids st"
  by (auto simp: idle_def)

lemma entries_known:
  "\<forall>e\<in>set es. JStr (post_identity e) \<in> known_ids st \<Longrightarrow>
   for_loop (process_entry ev) st es = Inr st"
  by (induction es) (simp_all add: process_entry_known)

lemma process_feed_idle:
  assumes "\<forall>e\<in>set (py_prefix (items_per_feed ev) (entries (fetch ev url))).
      JStr (post_identity e) \<in> known_ids st"
  shows "\<exists>st'. process_feed ev st url = Inr st' \<and> idle st st'"
proof -
  define st1 where "st1 = st\<lparr>wld := emit (PrintFetching url) (wld st)\<rparr>"
  define st2 where
    "st2 = (if bozo (fetch ev url) then st1\<lparr>wld := emit PrintWarning (wld st1)\<rparr> else st1)"
  have 1: "idle st st1" unfolding st1_def by (rule idle_print) simp
  have "idle st1 (st1\<lparr>wld := emit PrintWarning (wld st1)\<rparr>)" by (rule idle_print) simp
  then have 2: "idle st1 st2" by (simp add: st2_def idle_refl)
  have 12: "idle st st2" using 1 2 by (rule idle_trans)
  have k: "known_ids st2 = known_ids st" using 12 by (rule idle_known)
  have e: "process_feed ev st url =
      (if entries (fetch ev url) = [] then Inr (st2\<lparr>wld := emit PrintNoEntries (wld st2)\<rparr>)
       else for_loop (process_entry ev) st2
              (py_prefix (items_per_feed ev) (entries (fetch ev url))))"
    by (simp add: process_feed_def st1_def st2_def Let_def)
  show ?thesis
  proof (cases "entries (fetch ev url) = []")
    case True
    have "idle st2 (st2\<lparr>wld := emit PrintNoEntries (wld st2)\<rparr>)" by (rule idle_print) simp
    then have "idle st (st2\<lparr>wld := emit PrintNoEntries (wld st2)\<rparr>)"
      using 12 idle_trans by blast
    then show ?thesis using True e by simp
  next
    case False
    have "for_loop (process_entry ev) st2
        (py_prefix (items_per_feed ev) (entries (fetch ev url))) = Inr st2"
      using assms k by (intro entries_known) simp
    then show ?thesis using 12 False e by simp
  qed
qed

lemma feeds_idle:
  "\<forall>e\<in>set (snapshot ev feeds). JStr (post_identity e) \<in> known_ids st \<Longrightarrow>
   \<exists>st'. for_loop (process_feed ev) st feeds = Inr st' \<and> idle st st'"
proof (induction feeds arbitrary: st)
  case Nil
  then show ?case by (simp add: idle_refl)
next
  case (Cons url feeds)
  have "\<exists>st'. process_feed ev st url = Inr st' \<and> idle st st'"
    using Cons.prems by (intro process_feed_idle) (simp add: snapshot_def)
  then obtain st1 where 1: "process_feed ev st url = Inr st1" "idle st st1" by blast
  have "\<forall>e\<in>set (snapshot ev feeds). JStr (post_identity e) \<in> known_ids st1"
    using Cons.prems idle_known [OF 1(2)] by (simp add: snapshot_def)
  then have "\<exists>st'. for_loop (process_feed ev) st1 feeds = Inr st' \<and> idle st1 st'"
    by (rule Cons.IH)
  then obtain st2 where 2: "for_loop (process_feed ev) st1 feeds = Inr st2" "idle st1 st2"
    by blast
  have "idle st st2" using 1(2) 2(2) by (rule idle_trans)
  then show ?case using 1(1) 2(1) by simp
qed

section \<open>Entries that were looked at are known\<close>

lemma grows_known: "grows st st' \<Longrightarrow> known_ids st \<subseteq> known_ids st'"
  by (auto simp: grows_def)

lemma process_entry_covers:
  assumes "process_entry ev st e = Inr st'"
  shows "JStr (post_identity e) \<in> known_ids st'"
proof (cases "JStr (post_identity e) \<in> known_ids st")
  case True
  then show ?thesis using assms by (simp add: process_entry_known)
next
  case False
  from process_entry_new [OF False assms] show ?thesis by auto
qed

lemma entries_cover:
  "for_loop (process_entry ev) st es = Inr st' \<Longrightarrow> e \<in> set es \<Longrightarrow>
   JStr (post_identity e) \<in> known_ids st'"
proof (induction es arbitrary: st)
  case Nil
  then show ?case by simp
next
  case (Cons x es)
  from Cons.prems(1) obtain st1 where 1: "process_entry ev st x = Inr st1"
    and 2: "for_loop (process_entry ev) st1 es = Inr st'"
    by (auto split: sum.splits)
  show ?case
  proof (cases "e \<in> set es")
    case True
    then show ?thesis using Cons.IH [OF 2] by simp
  next
    case False
    then have "e = x" using Cons.prems(2) by simp
    moreover have "grows st1 st'"
      using 2 by (rule for_loop_grows [rotated]) (rule process_entry_grows)
    ultimately show ?thesis using process_entry_covers [OF 1] grows_known by auto
  qed
qed

lemma process_feed_covers:
  assumes "process_feed ev st url = Inr st'"
    and "e \<in> set (py_prefix (items_per_feed ev) (entries (fetch ev url)))"
  shows "JStr (post_identity e) \<in> known_ids st'"
proof -
  from assms(2) have "entries (fetch ev url) \<noteq> []"
    by (cases "entries (fetch ev url) = []") (simp_all add: py_prefix_def split: if_splits)
  then show ?thesis
    using assms by (simp add: process_feed_def Let_def) (erule entries_cover)
qed

lemma feeds_cover:
  "for_loop (process_feed ev) st feeds = Inr st' \<Longrightarrow> e \<in> set (snapshot ev feeds) \<Longrightarrow>
   JStr (post_identity e) \<in> known_ids st'"
proof (induction feeds arbitrary: st)
  case Nil
  then show ?case by (simp add: snapshot_def)
next
  case (Cons url feeds)
  from Cons.prems(1) obtain st1 where 1: "process_feed ev st url = Inr st1"
    and 2: "for_loop (process_feed ev) st1 feeds = Inr st'"
    by (auto split: sum.splits)
  show ?case
  proof (cases "e \<in> set (snapshot ev feeds)")
    case True
    then show ?thesis using Cons.IH [OF 2] by simp
  next
    case False
    then have "e \<in> set (py_prefix (items_per_feed ev) (entries (fetch ev url)))"
      using Cons.prems(2) by (simp add: snapshot_def)
    then have "JStr (post_identity e) \<in> known_ids st1"
      using 1 by (intro process_feed_covers)
    moreover have "grows st1 st'" using 2 by (rule feeds_grow)
    ultimately show ?thesis using grows_known by auto
  qed
qed

section \<open>What a run leaves\<close>

lemma start_simps:
  "posts (start w ps K) = ps" "known_ids (start w ps K) = K" "added_count (start w ps K) = 0"
  "wld (start w ps K) = emit EnsureDirs w"
  by (simp_all add: start_def)

text \<open>
  C8 (as amended). A run that returns has saved the manifest exactly once where the
  list of feeds is not empty: the save is the last thing it does before the two closing lines, whatever
  the feeds gave. Where the list of feeds is empty the run stops after one line: it
  does not save, and the manifest file is as it was.
\<close>

theorem main_saves_once:
  assumes "main ev w = Inr w'"
  shows "(resolve_feeds ev \<noteq> [] \<longrightarrow>
           (\<exists>pre m a n. trace w' = trace w @ pre @ [SaveManifest m, PrintDone a, PrintTotal n] \<and>
              saves pre = [] \<and> manifest_file w' = Stored m)) \<and>
         (resolve_feeds ev = [] \<longrightarrow>
            trace w' = trace w @ [EnsureDirs, PrintNoFeeds] \<and>
            manifest_file w' = manifest_file w)"
proof (cases "resolve_feeds ev = []")
  case True
  have "w' = emit PrintNoFeeds (emit EnsureDirs w)" using assms True by (rule main_stop)
  then have "trace w' = trace w @ [EnsureDirs, PrintNoFeeds] \<and> manifest_file w' = manifest_file w"
    by (simp add: emit_def)
  then show ?thesis using True by simp
next
  case False
  have "\<exists>pre m a n. trace w' = trace w @ pre @ [SaveManifest m, PrintDone a, PrintTotal n] \<and>
      saves pre = [] \<and> manifest_file w' = Stored m"
  proof (rule main_run [OF assms False])
    fix d ps K st ps'
    assume st: "for_loop (process_feed ev) (start w ps K) (resolve_feeds ev) = Inr st"
      and w': "w' = emit (PrintTotal (length (posts st))) (emit (PrintDone (added_count st))
           (emit (SaveManifest (saved d ps')) ((wld st)\<lparr>manifest_file := Stored (saved d ps')\<rparr>)))"
    have "grows (start w ps K) st" using st by (rule feeds_grow)
    then obtain evs where t: "trace (wld st) = trace (wld (start w ps K)) @ evs"
      and s: "saves evs = []"
      unfolding grows_def by blast
    have 1: "trace w' = trace w @ (EnsureDirs # evs) @
        [SaveManifest (saved d ps'), PrintDone (added_count st), PrintTotal (length (posts st))]"
      unfolding w' by (simp add: emit_def t start_simps)
    have 2: "saves (EnsureDirs # evs) = []" using s by simp
    have 3: "manifest_file w' = Stored (saved d ps')" unfolding w' by (simp add: emit_def)
    show ?thesis using 1 2 3 by (intro exI conjI)
  qed
  then show ?thesis using False by simp
qed

theorem main_saves_once_witness:
  "trace world_after = trace fresh_world @
     [EnsureDirs, PrintFetching (u ''f''), WritePost (u ''2024-01-02-hello-world.html''),
      PrintWrote (u ''2024-01-02-hello-world.html'')] @
     [SaveManifest sample_manifest, PrintDone 1, PrintTotal 1] \<and>
   manifest_file world_after = Stored sample_manifest \<and>
   (\<exists>pre m a n. trace world_after = trace fresh_world @ pre @
       [SaveManifest m, PrintDone a, PrintTotal n] \<and> saves pre = [] \<and>
       manifest_file world_after = Stored m)"
  using main_saves_once [OF main_sample]
  by (simp add: feeds_sample world_after_def fresh_world_def)

text \<open>
  C8 as stated fails: with \<open>RSS_FEEDS\<close> set to a comma the list of feeds is empty, and
  the run returns without saving; no manifest file is there afterwards.
\<close>

theorem main_no_save_counterexample:
  "resolve_feeds nofeeds_env = [] \<and>
   main nofeeds_env fresh_world = Inr (fresh_world\<lparr>trace := [EnsureDirs, PrintNoFeeds]\<rparr>) \<and>
   saves (trace (fresh_world\<lparr>trace := [EnsureDirs, PrintNoFeeds]\<rparr>)) = [] \<and>
   manifest_file (fresh_world\<lparr>trace := [EnsureDirs, PrintNoFeeds]\<rparr>) = Absent"
proof -
  have f: "resolve_feeds nofeeds_env = []"
    by (simp add: resolve_feeds_def ENV_FEEDS_def nofeeds_env_def sample_env_def u_def
        py_strip_def py_lstrip_def py_rstrip_def is_space_def)
  then show ?thesis
    by (simp add: main_def fresh_world_def perform_def emit_def load_fresh empty_manifest_def
        Let_def)
qed

text \<open>
  C10. For a manifest file that holds a \<open>dict\<close> with a list under \<open>posts\<close>, the manifest
  file after a run that returns holds a \<open>dict\<close> with the same keys in the same order,
  and every key other than \<open>posts\<close> has the value it had.
\<close>

theorem main_keeps_keys:
  assumes "manifest_file w = Stored (JDict d)" and "well_shaped (JDict d)"
    and "main ev w = Inr w'"
  shows "\<exists>d'. manifest_file w' = Stored (JDict d') \<and> map fst d' = map fst d \<and>
     (\<forall>k. k \<noteq> u ''posts'' \<longrightarrow> map_of d' k = map_of d k)"
proof (cases "resolve_feeds ev = []")
  case True
  have "w' = emit PrintNoFeeds (emit EnsureDirs w)" using assms(3) True by (rule main_stop)
  then have "manifest_file w' = Stored (JDict d)" using assms(1) by (simp add: emit_def)
  then show ?thesis by simp
next
  case False
  have l: "load_manifest (manifest_file w) = Inr (JDict d)"
    using assms(1,2) by (simp add: load_manifest_cases)
  show ?thesis
  proof (rule main_run [OF assms(3) False])
    fix d0 ps K st ps'
    assume d0: "load_manifest (manifest_file w) = Inr (JDict d0)"
      and p: "map_of d0 (u ''posts'') = Some (JList ps)"
      and w': "w' = emit (PrintTotal (length (posts st))) (emit (PrintDone (added_count st))
           (emit (SaveManifest (saved d0 ps')) ((wld st)\<lparr>manifest_file := Stored (saved d0 ps')\<rparr>)))"
    from d0 l have e: "d0 = d" by simp
    from p have "(u ''posts'', JList ps) \<in> set d" unfolding e by (rule map_of_SomeD)
    then have "u ''posts'' \<in> fst ` set d" by force
    then have 1: "map fst (AList.update (u ''posts'') (JList ps') d) = map fst d"
      by (simp add: update_keys)
    have 2: "\<forall>k. k \<noteq> u ''posts'' \<longrightarrow>
        map_of (AList.update (u ''posts'') (JList ps') d) k = map_of d k"
      by (simp add: update_conv')
    have 3: "manifest_file w' = Stored (JDict (AList.update (u ''posts'') (JList ps') d))"
      unfolding w' e by (simp add: emit_def saved_def)
    show ?thesis using 1 2 3 by (intro exI conjI)
  qed
qed

theorem main_keeps_keys_witness:
  "manifest_file site_world = Stored (JDict (site_manifest unsorted_posts)) \<and>
   main quiet_env site_world = Inr site_world_after \<and>
   manifest_file site_world_after = Stored (JDict (site_manifest sorted_posts)) \<and>
   map fst (site_manifest sorted_posts) = map fst (site_manifest unsorted_posts) \<and>
   map_of (site_manifest sorted_posts) (u ''site'') =
     map_of (site_manifest unsorted_posts) (u ''site'') \<and>
   map_of (site_manifest unsorted_posts) (u ''site'') = Some (JStr (u ''x''))"
proof -
  have f: "manifest_file site_world = Stored (JDict (site_manifest unsorted_posts))"
    by (simp add: site_world_def)
  have s: "well_shaped (JDict (site_manifest unsorted_posts))"
    by (simp add: site_manifest_simps)
  have a: "manifest_file site_world_after = Stored (JDict (site_manifest sorted_posts))"
    by (simp add: site_world_after_def)
  from main_keeps_keys [OF f s main_site] obtain d' where
    1: "manifest_file site_world_after = Stored (JDict d')"
    and 2: "map fst d' = map fst (site_manifest unsorted_posts)"
    and 3: "\<forall>k. k \<noteq> u ''posts'' \<longrightarrow> map_of d' k = map_of (site_manifest unsorted_posts) k"
    by blast
  from 1 a have d': "d' = site_manifest sorted_posts" by simp
  have "u ''site'' \<noteq> u ''posts''" by (simp add: u_def)
  then have "map_of d' (u ''site'') = map_of (site_manifest unsorted_posts) (u ''site'')"
    using 3 by blast
  moreover have "map_of (site_manifest unsorted_posts) (u ''site'') = Some (JStr (u ''x''))"
    by (simp add: site_manifest_def)
  ultimately show ?thesis using f a 2 main_site unfolding d' by simp
qed

section \<open>Ids stay distinct\<close>

lemma unique_ids_mset: "mset ps = mset qs \<Longrightarrow> unique_ids ps = unique_ids qs"
proof -
  assume "mset ps = mset qs"
  then have "mset (filter (\<lambda>v. v \<noteq> JNull) (map post_id ps)) =
      mset (filter (\<lambda>v. v \<noteq> JNull) (map post_id qs))"
    by simp
  then show ?thesis unfolding unique_ids_def by (rule mset_eq_imp_distinct_iff)
qed

lemma sort_posts_mset:
  assumes "permutes other" and "sort_posts other ps = Inr ps'"
  shows "mset ps' = mset ps"
proof (cases "collect (map date_key ps)")
  case (Inl e)
  then show ?thesis using assms(2) by (simp add: sort_posts_def)
next
  case (Inr keys)
  show ?thesis
  proof (cases "length ps \<le> 1 \<or> (\<forall>k\<in>set keys. is_str k)")
    case True
    then show ?thesis using assms(2) Inr by (auto simp: sort_posts_def split: if_splits)
  next
    case False
    then have "other ps = Inr ps'" using assms(2) Inr
      by (auto simp: sort_posts_def split: if_splits)
    then show ?thesis using assms(1) by (simp add: permutes_def)
  qed
qed

lemma unique_ids_append:
  assumes "unique_ids ps"
    and "\<forall>p\<in>set new. \<exists>s. s \<noteq> [] \<and> post_id p = JStr s"
    and "distinct (map post_id new)"
    and "post_id ` set new \<inter> post_id ` set (filter (\<lambda>p. truthy (post_id p)) ps) = {}"
  shows "unique_ids (ps @ new)"
proof -
  have n: "filter (\<lambda>v. v \<noteq> JNull) (map post_id new) = map post_id new"
    using assms(2) by (auto simp: filter_id_conv)
  have "set (filter (\<lambda>v. v \<noteq> JNull) (map post_id ps)) \<inter> set (map post_id new) = {}"
  proof (rule ccontr)
    assume "set (filter (\<lambda>v. v \<noteq> JNull) (map post_id ps)) \<inter> set (map post_id new) \<noteq> {}"
    then obtain x where "x \<in> set (filter (\<lambda>v. v \<noteq> JNull) (map post_id ps))"
      and "x \<in> set (map post_id new)" by blast
    then obtain p q where p: "p \<in> set ps" and q: "q \<in> set new" and e: "post_id p = post_id q"
      by auto
    from q assms(2) obtain s where s: "s \<noteq> []" "post_id q = JStr s" by blast
    then have "truthy (post_id p)" using e by simp
    then have "post_id p \<in> post_id ` set (filter (\<lambda>p. truthy (post_id p)) ps)"
      using p by auto
    moreover have "post_id p \<in> post_id ` set new" using q e by auto
    ultimately show False using assms(4) by blast
  qed
  then show ?thesis using assms(1,3) by (simp add: unique_ids_def n)
qed

text \<open>
  C1 (as amended). A run that saves leaves no two posts of the same id in the manifest,
  if the manifest it loaded had none: an entry whose identity is known is skipped, and the
  identity of an entry is known once the entry has been dealt with. A post without id
  shares its id with none. (\<open>list.sort\<close> leaves a permutation of the list.)
\<close>

theorem main_unique_ids:
  assumes "main ev w = Inr w'" and "resolve_feeds ev \<noteq> []"
    and "load_manifest (manifest_file w) = Inr m" and "unique_ids (posts_of m)"
    and "permutes (sort_other ev)"
  shows "\<exists>m'. manifest_file w' = Stored m' \<and> unique_ids (posts_of m') \<and>
     (\<forall>st e. JStr (post_identity e) \<in> known_ids st \<longrightarrow> process_entry ev st e = Inr st) \<and>
     (\<forall>st e st'. process_entry ev st e = Inr st' \<longrightarrow> JStr (post_identity e) \<in> known_ids st')"
proof (rule main_run [OF assms(1,2)])
  fix d ps K st ps'
  assume l: "load_manifest (manifest_file w) = Inr (JDict d)"
    and p: "map_of d (u ''posts'') = Some (JList ps)"
    and k: "known_ids_of ps = Inr K"
    and st: "for_loop (process_feed ev) (start w ps K) (resolve_feeds ev) = Inr st"
    and s: "sort_posts (sort_other ev) (posts st) = Inr ps'"
    and w': "w' = emit (PrintTotal (length (posts st))) (emit (PrintDone (added_count st))
           (emit (SaveManifest (saved d ps')) ((wld st)\<lparr>manifest_file := Stored (saved d ps')\<rparr>)))"
  from l assms(3) have m: "m = JDict d" by simp
  have u: "unique_ids ps" using assms(4) p by (simp add: m)
  have K: "K = post_id ` set (filter (\<lambda>p. truthy (post_id p)) ps)"
    using k by (simp add: known_ids_of_Inr_iff)
  have "grows (start w ps K) st" using st by (rule feeds_grow)
  then obtain new where n: "posts st = ps @ new"
    "\<forall>p\<in>set new. usable_post p \<and> (\<exists>s. s \<noteq> [] \<and> post_id p = JStr s)"
    "distinct (map post_id new)" "post_id ` set new \<inter> K = {}"
    unfolding grows_def by (auto simp: start_simps)
  have "unique_ids (ps @ new)"
    using u n(2,3,4) unfolding K by (intro unique_ids_append) auto
  moreover have "mset ps' = mset (posts st)" using assms(5) s by (rule sort_posts_mset)
  ultimately have 1: "unique_ids (posts_of (saved d ps'))"
    using unique_ids_mset [of ps' "posts st"] by (simp add: posts_of_saved n(1))
  have 2: "manifest_file w' = Stored (saved d ps')" unfolding w' by (simp add: emit_def)
  have 3: "\<forall>st e. JStr (post_identity e) \<in> known_ids st \<longrightarrow> process_entry ev st e = Inr st"
    by (simp add: process_entry_known)
  have 4: "\<forall>st e st'. process_entry ev st e = Inr st' \<longrightarrow>
      JStr (post_identity e) \<in> known_ids st'"
    using process_entry_covers by blast
  show ?thesis using 1 2 3 4 by (intro exI conjI)
qed

lemma permutes_sample: "permutes (sort_other sample_env)"
  by (simp add: permutes_def sample_env_def)

theorem main_unique_ids_witness:
  "main sample_env fresh_world = Inr world_after \<and>
   main sample_env world_after = Inr world_after_second \<and>
   manifest_file world_after_second = Stored sample_manifest \<and>
   posts_of sample_manifest = [sample_post] \<and>
   unique_ids (posts_of sample_manifest)"
proof -
  have l: "load_manifest (manifest_file world_after) = Inr sample_manifest"
    by (simp add: world_after_def load_manifest_def load_try_def sample_manifest_def)
  have p: "posts_of sample_manifest = [sample_post]" by (simp add: sample_manifest_def)
  have i: "post_id sample_post = JStr (u ''abc123'')"
    by (simp add: sample_post_def dict_get_def u_def)
  have u: "unique_ids (posts_of sample_manifest)" by (simp add: p unique_ids_def i)
  have n: "resolve_feeds sample_env \<noteq> []" by (simp add: feeds_sample)
  from main_unique_ids [OF main_sample_second n l u permutes_sample] obtain m' where
    1: "manifest_file world_after_second = Stored m'" and 2: "unique_ids (posts_of m')"
    by blast
  have "manifest_file world_after_second = Stored sample_manifest"
    by (simp add: world_after_second_def world_after_def)
  then have "m' = sample_manifest" using 1 by simp
  then show ?thesis using 1 2 p main_sample main_sample_second by simp
qed

text \<open>
  C1 as stated fails: a run on a manifest that holds two posts of the id \<open>a\<close>, with a
  feed that gives no entry, saves the manifest with both.
\<close>

theorem main_duplicates_counterexample:
  "main quiet_env twice_world = Inr twice_world_after \<and>
   manifest_file twice_world_after = Stored twice_manifest \<and>
   map post_id (posts_of twice_manifest) = [JStr (u ''a''), JStr (u ''a'')] \<and>
   \<not> unique_ids (posts_of twice_manifest)"
proof -
  define dup where
    "dup = [post_at (u ''a'') (u ''2024-01-03''), post_at (u ''a'') (u ''2024-01-01'')]"
  have t: "twice_manifest = JDict [(u ''posts'', JList dup)]"
    by (simp add: twice_manifest_def dup_def)
  have l: "load_manifest (Stored (JDict [(u ''posts'', JList dup)])) =
      Inr (JDict [(u ''posts'', JList dup)])"
    by (simp add: load_manifest_def load_try_def)
  have "\<exists>K. known_ids_of dup = Inr K"
    by (simp add: dup_def post_at_def dict_get_def u_def)
  then obtain K where k: "known_ids_of dup = Inr K" by blast
  have l2: "u ''2024-01-01'' \<le> u ''2024-01-03''" "\<not> u ''2024-01-03'' \<le> u ''2024-01-01''"
    by (simp_all add: u_def)
  have s: "sort_posts other dup = Inr dup" for other
    by (simp add: sort_posts_def dup_def post_at_simps l2)
  have n: "length dup = 2" by (simp add: dup_def)
  have m: "main quiet_env twice_world = Inr twice_world_after"
    unfolding twice_world_def twice_world_after_def t
    by (simp add: main_def fresh_world_def perform_def emit_def l k n feeds_quiet feed_quiet
        save_manifest_def s Let_def)
  have i: "map post_id (posts_of twice_manifest) = [JStr (u ''a''), JStr (u ''a'')]"
    by (simp add: t dup_def post_at_simps)
  have "\<not> unique_ids (posts_of twice_manifest)" unfolding unique_ids_def i by simp
  then show ?thesis using m i by (simp add: twice_world_after_def)
qed

section \<open>A second run\<close>

lemma usable_dated: "usable_post p \<Longrightarrow> dated p"
  by (simp add: usable_post_def dated_def)

lemma idle_fields:
  assumes "idle st st'"
  shows "posts st' = posts st" "added_count st' = added_count st"
    "manifest_file (wld st') = manifest_file (wld st)"
    "post_files (wld st') = post_files (wld st)"
    "\<exists>evs. trace (wld st') = trace (wld st) @ evs \<and> writes evs = []"
  using assms by (auto simp: idle_def)

lemma sort_posts_settled:
  assumes "settled other" and "sort_posts other ps = Inr ps'"
  shows "mset ps' = mset ps \<and> sort_posts other ps' = Inr ps'"
proof (cases "sortable ps")
  case True
  then have e: "ps' = rev (sort_key date_str (rev ps))"
    using assms(2) by (simp add: sort_posts_sortable)
  show ?thesis unfolding e using True by (simp add: sort_posts_idem)
next
  case False
  from assms(2) obtain keys where k: "collect (map date_key ps) = Inr keys"
    by (cases "collect (map date_key ps)") (simp_all add: sort_posts_def)
  then have d: "\<forall>p\<in>set ps. is_dict p" using collect_date_key [of ps] by blast
  then have l: "\<not> length ps \<le> 1" using False by (auto simp: sortable_def)
  have n: "\<not> (\<forall>k\<in>set keys. is_str k)"
  proof
    assume a: "\<forall>k\<in>set keys. is_str k"
    have "\<forall>p\<in>set ps. date_key p = Inr (JStr (date_str p))"
    proof
      fix p assume p: "p \<in> set ps"
      then obtain j where j: "date_key p = Inr j" using d date_key_dict by blast
      then have "j \<in> set keys" using collect_date_key_set [OF k] p by auto
      then obtain s where "j = JStr s" using a is_str_iff by auto
      then show "date_key p = Inr (JStr (date_str p))" using j date_key_str by auto
    qed
    then show False using False d by (simp add: sortable_def)
  qed
  have o: "other ps = Inr ps'" using assms(2) k l n by (simp add: sort_posts_def)
  then have m: "mset ps' = mset ps" and o': "other ps' = Inr ps'"
    using assms(1) by (simp_all add: settled_def)
  have s: "set ps' = set ps" using m by (rule mset_eq_setD)
  have le: "length ps' = length ps" using m by (rule mset_eq_length)
  from d s obtain keys' where k': "collect (map date_key ps') = Inr keys'"
    using collect_date_key [of ps'] by auto
  have "set keys' = set keys"
    using collect_date_key_set [OF k] collect_date_key_set [OF k'] s by simp
  then have n': "\<not> (\<forall>k\<in>set keys'. is_str k)" using n by simp
  have l': "\<not> length ps' \<le> 1" using l le by simp
  have "sort_posts other ps' = Inr ps'"
    using k' l' n' o' by (auto simp: sort_posts_def)
  then show ?thesis using m by simp
qed

text \<open>
  C2. A second run with the feeds as they were at the first adds nothing: it writes no
  document, reports zero new posts, and saves the manifest that the first run saved,
  so that the manifest file is the same. This is for a first run that starts from a
  manifest whose posts have a string as \<open>date_iso\<close>, or for a \<open>list.sort\<close> that is a
  stable sort on other keys as well.
\<close>

theorem main_twice:
  assumes "main ev w0 = Inr w1" and "main ev w1 = Inr w2"
    and "load_manifest (manifest_file w0) = Inr m0"
    and "(\<forall>p\<in>set (posts_of m0). dated p) \<or> settled (sort_other ev)"
  shows "manifest_file w2 = manifest_file w1 \<and> post_files w2 = post_files w1 \<and>
     (resolve_feeds ev \<noteq> [] \<longrightarrow>
        (\<exists>m pre. manifest_file w1 = Stored m \<and> writes pre = [] \<and>
           trace w2 = trace w1 @ pre @
             [SaveManifest m, PrintDone 0, PrintTotal (length (posts_of m))]))"
proof (cases "resolve_feeds ev = []")
  case True
  have "w1 = emit PrintNoFeeds (emit EnsureDirs w0)" using assms(1) True by (rule main_stop)
  moreover have "w2 = emit PrintNoFeeds (emit EnsureDirs w1)"
    using assms(2) True by (rule main_stop)
  ultimately show ?thesis using True by (simp add: emit_def)
next
  case False
  have "manifest_file w2 = manifest_file w1 \<and> post_files w2 = post_files w1 \<and>
        (\<exists>m pre. manifest_file w1 = Stored m \<and> writes pre = [] \<and>
           trace w2 = trace w1 @ pre @
             [SaveManifest m, PrintDone 0, PrintTotal (length (posts_of m))])"
  proof (rule main_run [OF assms(1) False])
    fix d ps K st1 ps1
    assume l: "load_manifest (manifest_file w0) = Inr (JDict d)"
      and p: "map_of d (u ''posts'') = Some (JList ps)"
      and k: "known_ids_of ps = Inr K"
      and st1: "for_loop (process_feed ev) (start w0 ps K) (resolve_feeds ev) = Inr st1"
      and s1: "sort_posts (sort_other ev) (posts st1) = Inr ps1"
      and w1: "w1 = emit (PrintTotal (length (posts st1))) (emit (PrintDone (added_count st1))
           (emit (SaveManifest (saved d ps1)) ((wld st1)\<lparr>manifest_file := Stored (saved d ps1)\<rparr>)))"
    from l assms(3) have m0: "m0 = JDict d" by simp
    have K: "K = post_id ` set (filter (\<lambda>p. truthy (post_id p)) ps)"
      using k by (simp add: known_ids_of_Inr_iff)
    have "grows (start w0 ps K) st1" using st1 by (rule feeds_grow)
    then obtain new where n: "posts st1 = ps @ new"
      "\<forall>p\<in>set new. usable_post p \<and> (\<exists>s. s \<noteq> [] \<and> post_id p = JStr s)"
      "known_ids st1 = K \<union> post_id ` set new"
      unfolding grows_def by (auto simp: start_simps)
    have both: "mset ps1 = mset (posts st1) \<and> sort_posts (sort_other ev) ps1 = Inr ps1"
    proof (cases "\<forall>p\<in>set (posts_of m0). dated p")
      case True
      then have "\<forall>p\<in>set ps. dated p" using p by (simp add: m0)
      then have "\<forall>p\<in>set (posts st1). dated p" using n(2) usable_dated by (auto simp: n(1))
      then have so: "sortable (posts st1)" by (rule dated_sortable)
      then have ps1: "ps1 = rev (sort_key date_str (rev (posts st1)))"
        using s1 by (simp add: sort_posts_sortable)
      show ?thesis unfolding ps1 using so by (simp add: sort_posts_idem)
    next
      case False
      then have "settled (sort_other ev)" using assms(4) by blast
      then show ?thesis using s1 by (rule sort_posts_settled)
    qed
    then have idem: "sort_posts (sort_other ev) ps1 = Inr ps1" by simp
    have "set ps1 = set (posts st1)" using both by (intro mset_eq_setD) simp
    then have set1: "set ps1 = set ps \<union> set new" by (simp add: n(1))
    have tn: "\<forall>p\<in>set new. truthy (post_id p)" using n(2) by auto
    have known: "post_id ` set (filter (\<lambda>p. truthy (post_id p)) ps1) = known_ids st1"
      using tn by (auto simp: set1 n(3) K)
    have f1: "manifest_file w1 = Stored (saved d ps1)" unfolding w1 by (simp add: emit_def)
    have ws: "well_shaped (saved d ps1)" by (simp add: saved_def update_conv')
    have l1: "load_manifest (manifest_file w1) =
        Inr (JDict (AList.update (u ''posts'') (JList ps1) d))"
      using ws by (simp add: f1 load_manifest_cases) (simp add: saved_def)
    show ?thesis
    proof (rule main_run [OF assms(2) False])
      fix d2 ps2 K2 st2 ps2'
      assume l2: "load_manifest (manifest_file w1) = Inr (JDict d2)"
        and p2: "map_of d2 (u ''posts'') = Some (JList ps2)"
        and k2: "known_ids_of ps2 = Inr K2"
        and st2: "for_loop (process_feed ev) (start w1 ps2 K2) (resolve_feeds ev) = Inr st2"
        and s2: "sort_posts (sort_other ev) (posts st2) = Inr ps2'"
        and w2: "w2 = emit (PrintTotal (length (posts st2))) (emit (PrintDone (added_count st2))
           (emit (SaveManifest (saved d2 ps2')) ((wld st2)\<lparr>manifest_file := Stored (saved d2 ps2')\<rparr>)))"
      from l1 l2 have d2: "d2 = AList.update (u ''posts'') (JList ps1) d" by simp
      from p2 have e2: "ps2 = ps1" by (simp add: d2 update_conv')
      have K2: "K2 = known_ids st1"
        using k2 known by (simp add: known_ids_of_Inr_iff e2)
      have "\<forall>e\<in>set (snapshot ev (resolve_feeds ev)).
          JStr (post_identity e) \<in> known_ids (start w1 ps2 K2)"
        unfolding K2 start_simps using feeds_cover [OF st1] by blast
      then have "\<exists>st'. for_loop (process_feed ev) (start w1 ps2 K2) (resolve_feeds ev) = Inr st' \<and>
          idle (start w1 ps2 K2) st'"
        by (rule feeds_idle)
      then have i: "idle (start w1 ps2 K2) st2" using st2 by auto
      have a: "posts st2 = ps1" "added_count st2 = 0"
        "manifest_file (wld st2) = manifest_file w1" "post_files (wld st2) = post_files w1"
        using idle_fields(1-4) [OF i] by (simp_all add: start_simps e2 emit_def)
      from idle_fields(5) [OF i] obtain evs where
        t: "trace (wld st2) = trace w1 @ [EnsureDirs] @ evs" and wr: "writes evs = []"
        by (auto simp: start_simps emit_def)
      from s2 idem have e3: "ps2' = ps1" by (simp add: a(1))
      have sv: "saved d2 ps2' = saved d ps1" by (simp add: d2 e3 saved_twice)
      have 1: "manifest_file w2 = manifest_file w1" unfolding w2 sv f1 by (simp add: emit_def)
      have 2: "post_files w2 = post_files w1" unfolding w2 using a(4) by (simp add: emit_def)
      have 3: "trace w2 = trace w1 @ (EnsureDirs # evs) @
             [SaveManifest (saved d ps1), PrintDone 0,
              PrintTotal (length (posts_of (saved d ps1)))]"
        unfolding w2 sv by (simp add: emit_def t a(1,2) posts_of_saved)
      have 4: "writes (EnsureDirs # evs) = []" using wr by simp
      have "\<exists>m pre. manifest_file w1 = Stored m \<and> writes pre = [] \<and>
           trace w2 = trace w1 @ pre @
             [SaveManifest m, PrintDone 0, PrintTotal (length (posts_of m))]"
        using f1 4 3 by (intro exI conjI)
      then show ?thesis using 1 2 by simp
    qed
  qed
  then show ?thesis by simp
qed

theorem main_twice_witness:
  "main sample_env fresh_world = Inr world_after \<and>
   main sample_env world_after = Inr world_after_second \<and>
   manifest_file world_after_second = manifest_file world_after \<and>
   post_files world_after_second = post_files world_after \<and>
   manifest_file world_after = Stored sample_manifest \<and>
   trace world_after_second = trace world_after @
     [EnsureDirs, PrintFetching (u ''f'')] @
     [SaveManifest sample_manifest, PrintDone 0, PrintTotal (length (posts_of sample_manifest))]"
proof -
  have l: "load_manifest (manifest_file fresh_world) = Inr empty_manifest"
    by (simp add: fresh_world_def load_fresh)
  have d: "(\<forall>p\<in>set (posts_of empty_manifest). dated p) \<or> settled (sort_other sample_env)"
    by (simp add: empty_manifest_def)
  have "manifest_file world_after_second = manifest_file world_after \<and>
      post_files world_after_second = post_files world_after"
    using main_twice [OF main_sample main_sample_second l d] by simp
  moreover have "manifest_file world_after = Stored sample_manifest"
    by (simp add: world_after_def)
  moreover have "trace world_after_second = trace world_after @
     [EnsureDirs, PrintFetching (u ''f'')] @
     [SaveManifest sample_manifest, PrintDone 0, PrintTotal (length (posts_of sample_manifest))]"
    by (simp add: world_after_second_def sample_manifest_def)
  ultimately show ?thesis using main_sample main_sample_second by simp
qed

end
